theory Spec2Isabelle
  imports Main "HOL-Library.Signed_Division" "HOL-Library.Multiset"
begin

section \<open>The snake game of arduino-snake-game.ino\<close>

text \<open>
  The sketch keeps a snake and a set of food pieces on an LED matrix that is treated as a
  torus. This theory embeds the game logic of the sketch: \<open>point\<close>, \<open>Direction\<close>, the classes
  \<open>Snake\<close> and \<open>Food\<close>, \<open>readDirection\<close>, \<open>initGame\<close> and the body of \<open>loop()\<close>.

  Conventions of the embedding.
  \<^item> A C \<open>int\<close> is a HOL \<open>int\<close>. Every value the game computes is small (a coordinate below
    twice the grid size, a length, a count), so the 16-bit range of the target is not
    modelled. The remainder operator \<open>%\<close> of C truncates towards zero: it is \<open>smod\<close>.
  \<^item> An array allocated with \<open>new\<close> is a list whose length is the allocated size. An access
    outside the allocation, and a remainder by zero, are undefined behaviour in C++; the
    model returns \<open>Undef\<close> there, so every function that touches an array returns a
    \<open>result\<close>.
  \<^item> The \<open>Matrix\<close> is a write-only pixel buffer for the game logic: no function of the
    sketch reads a pixel back. Its two dimensions are modelled, and of \<open>setPixel\<close> whether
    the write is defined. The constructor of \<open>Snake\<close> and \<open>cut\<close> pass \<open>setPixel\<close> a cell
    that has not been reduced to the canvas, and call it in the model. \<open>extend\<close>,
    \<open>placeFood\<close>, the blinking of the head and the curtain animation pass it a point of
    the grid (the head reduced modulo the canvas size, a sample drawn below the canvas
    size, a loop index), where the write is defined on a canvas with
    \<open>columns \<le> rows \<le> 16\<close> such as the 8 by 8 canvas of the sketch (lemma
    \<open>setPixel_on_grid\<close>); these calls, \<open>flush\<close>, the buzzer and the delays are left out.
  \<^item> \<open>random()\<close> belongs to the Arduino core, not to the sketch. The sequence of points it
    produces for \<open>placeFood\<close> (two calls per point) is a parameter \<open>rnd :: nat \<Rightarrow> point\<close>;
    the position in that sequence is part of the state.
  \<^item> The two values \<open>analogRead\<close> returns for the joystick in one tick are the input of
    that tick.
\<close>

subsection \<open>Undefined behaviour as a value\<close>

datatype 'a result = Ok 'a | Undef

text \<open>Reading and writing the cell \<open>i\<close> of an array.\<close>

definition arr_get :: "'a list \<Rightarrow> int \<Rightarrow> 'a result" where
  "arr_get a i = (if 0 \<le> i \<and> i < int (length a) then Ok (a ! nat i) else Undef)"

definition arr_set :: "'a list \<Rightarrow> int \<Rightarrow> 'a \<Rightarrow> 'a list result" where
  "arr_set a i v = (if 0 \<le> i \<and> i < int (length a) then Ok (a[nat i := v]) else Undef)"

subsection \<open>point and Direction\<close>

text \<open>\<open>struct point { int x; int y; }\<close> is the pair \<open>(x, y)\<close>; \<open>operator==\<close> compares both
  fields, as equality of pairs does.\<close>

type_synonym point = "int \<times> int"

definition point_add :: "point \<Rightarrow> point \<Rightarrow> point" where
  "point_add p other = (fst p + fst other, snd p + snd other)"

datatype Direction = LEFT | UP | RIGHT | DOWN

text \<open>The integer value of an enumerator.\<close>

fun dir_val :: "Direction \<Rightarrow> int" where
  "dir_val LEFT = 0"
| "dir_val UP = 1"
| "dir_val RIGHT = 2"
| "dir_val DOWN = 3"

fun makeDirectionVector :: "Direction \<Rightarrow> point" where
  "makeDirectionVector LEFT = (-1, 0)"
| "makeDirectionVector UP = (0, -1)"
| "makeDirectionVector RIGHT = (1, 0)"
| "makeDirectionVector DOWN = (0, 1)"

subsection \<open>The objects of the sketch\<close>

text \<open>The classes \<open>Matrix\<close> (its two dimensions), \<open>Snake\<close> and \<open>Food\<close> with their data members,
  and the game parameters, which the sketch declares as constants.\<close>

record Matrix =
  m_rows :: int
  m_columns :: int

record Snake =
  m_currentLength :: int
  m_snake :: "point list"

record Food =
  m_foodPoints :: "point list"
  m_foodCount :: int

record config =
  ROWS :: int
  COLUMNS :: int
  MAX_SNAKE_LENGTH :: int
  INIT_SNAKE_LENGTH :: int
  FOOD_POINTS :: int
  REFILL_IMMEDIATELY :: bool
  JOYSTICK_THRESHOLD :: int

text \<open>The global variables \<open>matrix\<close>, \<open>snake\<close>, \<open>food\<close> and \<open>direct\<close>, and the number of points
  drawn from \<open>rnd\<close> so far.\<close>

record game =
  matrix :: Matrix
  snake :: Snake
  food :: Food
  direct :: Direction
  drawn :: nat

subsection \<open>Matrix: the dimensions of the canvas\<close>

definition getRowsCount :: "Matrix \<Rightarrow> int" where
  "getRowsCount canvas = m_rows canvas"

definition getColumnsCount :: "Matrix \<Rightarrow> int" where
  "getColumnsCount canvas = m_columns canvas"

text \<open>\<open>setPixel\<close> computes \<open>1 << (m_rows - p.x - 1)\<close> and changes \<open>m_display[p.y]\<close>, an array
  of \<open>m_rows\<close> cells. A shift by a negative count or by the width of \<open>int\<close> (16 bits on the
  microcontroller of the sketch) or more is undefined, and so is the access to a row
  outside the array. The content of the buffer is not modelled.\<close>

definition setPixel :: "Matrix \<Rightarrow> point \<Rightarrow> bool \<Rightarrow> unit result" where
  "setPixel canvas p v =
     (let shift = m_rows canvas - fst p - 1
      in if shift < 0 \<or> 16 \<le> shift then Undef
         else if 0 \<le> snd p \<and> snd p < m_rows canvas then Ok ()
         else Undef)"

subsection \<open>Snake\<close>

text \<open>The constructor: \<open>new point[maxLength + 1]\<close> (its cells are not initialised by C++;
  the model fills them with \<open>(0, 0)\<close>), then the loop that lays the snake out from \<open>start\<close>
  along \<open>dir\<close>, without wrapping, and draws each cell on the canvas.\<close>

function Snake_fill ::
  "Matrix \<Rightarrow> int \<Rightarrow> point \<Rightarrow> point list \<Rightarrow> point \<Rightarrow> int \<Rightarrow> point list result" where
  "Snake_fill canvas len directionVector a currPos i =
     (if i < len then
        (case arr_set a i currPos of
           Undef \<Rightarrow> Undef
         | Ok a' \<Rightarrow>
             (case setPixel canvas currPos True of
                Undef \<Rightarrow> Undef
              | Ok u \<Rightarrow> Snake_fill canvas len directionVector a'
                         (point_add currPos directionVector) (i + 1)))
      else Ok a)"
  by pat_completeness auto
termination
  by (relation "measure (\<lambda>(canvas, len, d, a, p, i). nat (len - i))") auto

declare Snake_fill.simps [simp del]

definition Snake_new :: "Matrix \<Rightarrow> int \<Rightarrow> int \<Rightarrow> point \<Rightarrow> Direction \<Rightarrow> Snake result" where
  "Snake_new canvas initLength maxLength start dir =
     (case Snake_fill canvas initLength (makeDirectionVector dir)
             (replicate (nat (maxLength + 1)) (0, 0)) start 0 of
        Undef \<Rightarrow> Undef
      | Ok a \<Rightarrow> Ok \<lparr>m_currentLength = initLength, m_snake = a\<rparr>)"

definition getHead :: "Snake \<Rightarrow> point result" where
  "getHead s = arr_get (m_snake s) (m_currentLength s - 1)"

definition getTail :: "Snake \<Rightarrow> point result" where
  "getTail s = arr_get (m_snake s) 0"

definition getLength :: "Snake \<Rightarrow> int" where
  "getLength s = m_currentLength s"

text \<open>\<open>extend\<close>: the new head is the old one moved by the unit vector, plus the grid size,
  each coordinate reduced with \<open>%\<close>; it is stored in the cell after the head.\<close>

definition extend :: "Matrix \<Rightarrow> Snake \<Rightarrow> Direction \<Rightarrow> Snake result" where
  "extend canvas s dir =
     (case getHead s of
        Undef \<Rightarrow> Undef
      | Ok head0 \<Rightarrow>
          let head1 = point_add head0 (makeDirectionVector dir);
              head2 = point_add head1 (getColumnsCount canvas, getRowsCount canvas)
          in if getColumnsCount canvas = 0 \<or> getRowsCount canvas = 0 then Undef
             else
               let head3 = (fst head2 smod getColumnsCount canvas,
                            snd head2 smod getRowsCount canvas)
               in (case arr_set (m_snake s) (m_currentLength s) head3 of
                     Undef \<Rightarrow> Undef
                   | Ok a \<Rightarrow> Ok (s\<lparr>m_snake := a, m_currentLength := m_currentLength s + 1\<rparr>)))"

text \<open>\<open>cut\<close>: the pixel of the tail is cleared, every cell \<open>i < m_currentLength\<close> receives
  the cell \<open>i + 1\<close> (the last iteration reads the cell just after the head), then the length
  is decremented.\<close>

function cut_shift :: "int \<Rightarrow> point list \<Rightarrow> int \<Rightarrow> point list result" where
  "cut_shift len a i =
     (if i < len then
        (case arr_get a (i + 1) of
           Undef \<Rightarrow> Undef
         | Ok v \<Rightarrow> (case arr_set a i v of
                      Undef \<Rightarrow> Undef
                    | Ok a' \<Rightarrow> cut_shift len a' (i + 1)))
      else Ok a)"
  by pat_completeness auto
termination
  by (relation "measure (\<lambda>(len, a, i). nat (len - i))") auto

declare cut_shift.simps [simp del]

definition cut :: "Matrix \<Rightarrow> Snake \<Rightarrow> Snake result" where
  "cut canvas s =
     (case getTail s of
        Undef \<Rightarrow> Undef
      | Ok tail \<Rightarrow>
          (case setPixel canvas tail False of
             Undef \<Rightarrow> Undef
           | Ok u \<Rightarrow>
               (case cut_shift (m_currentLength s) (m_snake s) 0 of
                  Undef \<Rightarrow> Undef
                | Ok a \<Rightarrow> Ok (s\<lparr>m_snake := a, m_currentLength := m_currentLength s - 1\<rparr>))))"

text \<open>The scan shared by \<open>Snake::isOccupied\<close>, \<open>Snake::checkSelfCollision\<close> and
  \<open>Food::isOccupied\<close>: the cells \<open>i, i + 1, \<dots>\<close> below \<open>bound\<close> are compared with \<open>p\<close>, and
  the first equal one ends the loop with \<open>true\<close>.\<close>

function scan_for :: "point list \<Rightarrow> int \<Rightarrow> point \<Rightarrow> int \<Rightarrow> bool result" where
  "scan_for a bound p i =
     (if i < bound then
        (case arr_get a i of
           Undef \<Rightarrow> Undef
         | Ok q \<Rightarrow> if q = p then Ok True else scan_for a bound p (i + 1))
      else Ok False)"
  by pat_completeness auto
termination
  by (relation "measure (\<lambda>(a, bound, p, i). nat (bound - i))") auto

declare scan_for.simps [simp del]

definition Snake_isOccupied :: "Snake \<Rightarrow> point \<Rightarrow> bool result" where
  "Snake_isOccupied s p = scan_for (m_snake s) (m_currentLength s) p 0"

definition checkSelfCollision :: "Snake \<Rightarrow> bool result" where
  "checkSelfCollision s =
     (case getHead s of
        Undef \<Rightarrow> Undef
      | Ok head0 \<Rightarrow> scan_for (m_snake s) (m_currentLength s - 1) head0 0)"

text \<open>A snake object whose length fits its array and that has a head.\<close>

definition snake_wf :: "Snake \<Rightarrow> bool" where
  "snake_wf s \<longleftrightarrow> 1 \<le> m_currentLength s \<and> m_currentLength s \<le> int (length (m_snake s))"

text \<open>The occupied cells, tail first.\<close>

definition snake_cells :: "Snake \<Rightarrow> point list" where
  "snake_cells s = take (nat (m_currentLength s)) (m_snake s)"

subsection \<open>Food\<close>

text \<open>The constructor: \<open>new point[maxFoodCount]\<close> and no food placed.\<close>

definition Food_new :: "int \<Rightarrow> Food" where
  "Food_new maxFoodCount = \<lparr>m_foodPoints = replicate (nat maxFoodCount) (0, 0), m_foodCount = 0\<rparr>"

definition Food_isOccupied :: "Food \<Rightarrow> point \<Rightarrow> bool result" where
  "Food_isOccupied f p = scan_for (m_foodPoints f) (m_foodCount f) p 0"

definition getCount :: "Food \<Rightarrow> int" where
  "getCount f = m_foodCount f"

text \<open>\<open>placeFood\<close> is a \<open>while (true)\<close> loop that leaves only through the \<open>break\<close> after a
  placement. The point of iteration \<open>k\<close> is \<open>rnd k\<close>. The value \<open>None\<close> means that the loop
  runs forever, \<open>Some Undef\<close> that it writes outside \<open>m_foodPoints\<close>, and \<open>Some (Ok (f, k))\<close>
  that it returns with the food \<open>f\<close> after having drawn the points below \<open>k\<close>.\<close>

partial_function (option) placeFood ::
  "(nat \<Rightarrow> point) \<Rightarrow> Snake \<Rightarrow> int \<Rightarrow> Food \<Rightarrow> nat \<Rightarrow> (Food \<times> nat) result option" where
  "placeFood rnd sn numToPlace f k =
     (let p = rnd k in
      case Snake_isOccupied sn p of
        Undef \<Rightarrow> Some Undef
      | Ok snakeHas \<Rightarrow>
          if snakeHas then placeFood rnd sn numToPlace f (k + 1)
          else
            (case Food_isOccupied f p of
               Undef \<Rightarrow> Some Undef
             | Ok foodHas \<Rightarrow>
                 if foodHas then placeFood rnd sn numToPlace f (k + 1)
                 else
                   (case arr_set (m_foodPoints f) (m_foodCount f) p of
                      Undef \<Rightarrow> Some Undef
                    | Ok a \<Rightarrow>
                        let f' = f\<lparr>m_foodPoints := a, m_foodCount := m_foodCount f + 1\<rparr>;
                            numToPlace' = numToPlace - 1
                        in if numToPlace' \<le> 0 then Some (Ok (f', k + 1))
                           else placeFood rnd sn numToPlace' f' (k + 1))))"

declare placeFood.simps [code]

text \<open>\<open>tryEat\<close>: the first cell equal to \<open>p\<close> is overwritten with the last active cell and
  the count is decremented.\<close>

function tryEat_scan :: "Food \<Rightarrow> point \<Rightarrow> int \<Rightarrow> (bool \<times> Food) result" where
  "tryEat_scan f p i =
     (if i < m_foodCount f then
        (case arr_get (m_foodPoints f) i of
           Undef \<Rightarrow> Undef
         | Ok q \<Rightarrow>
             if q = p then
               (case arr_get (m_foodPoints f) (m_foodCount f - 1) of
                  Undef \<Rightarrow> Undef
                | Ok lastPoint \<Rightarrow>
                    (case arr_set (m_foodPoints f) i lastPoint of
                       Undef \<Rightarrow> Undef
                     | Ok a \<Rightarrow> Ok (True, f\<lparr>m_foodPoints := a, m_foodCount := m_foodCount f - 1\<rparr>)))
             else tryEat_scan f p (i + 1))
      else Ok (False, f))"
  by pat_completeness auto
termination
  by (relation "measure (\<lambda>(f, p, i). nat (m_foodCount f - i))") auto

declare tryEat_scan.simps [simp del]

definition tryEat :: "Food \<Rightarrow> point \<Rightarrow> (bool \<times> Food) result" where
  "tryEat f p = tryEat_scan f p 0"

text \<open>The active food cells, and a food object whose count fits its array.\<close>

definition food_cells :: "Food \<Rightarrow> point list" where
  "food_cells f = take (nat (m_foodCount f)) (m_foodPoints f)"

definition food_wf :: "Food \<Rightarrow> bool" where
  "food_wf f \<longleftrightarrow> 0 \<le> m_foodCount f \<and> m_foodCount f \<le> int (length (m_foodPoints f))"

subsection \<open>Game parameters and game variables\<close>

text \<open>The constants of the sketch.\<close>

definition sketch :: config where
  "sketch = \<lparr>ROWS = 8, COLUMNS = 8, MAX_SNAKE_LENGTH = 12, INIT_SNAKE_LENGTH = 2,
             FOOD_POINTS = 2, REFILL_IMMEDIATELY = True, JOYSTICK_THRESHOLD = 50\<rparr>"

text \<open>\<open>initGame\<close> replaces the three objects; \<open>direct\<close> is not reset, and the new snake is
  laid out along it from the last column of the first row.\<close>

definition initGame :: "config \<Rightarrow> Direction \<Rightarrow> nat \<Rightarrow> game result" where
  "initGame cfg dir k =
     (let canvas = \<lparr>m_rows = ROWS cfg, m_columns = COLUMNS cfg\<rparr>
      in case Snake_new canvas (INIT_SNAKE_LENGTH cfg) (MAX_SNAKE_LENGTH cfg)
                (COLUMNS cfg - 1, 0) dir of
           Undef \<Rightarrow> Undef
         | Ok sn \<Rightarrow>
             Ok \<lparr>matrix = canvas,
                 snake = sn,
                 food = Food_new (FOOD_POINTS cfg),
                 direct = dir,
                 drawn = k\<rparr>)"

text \<open>\<open>setup()\<close>: \<open>initGame\<close> with the initial \<open>direct = DOWN\<close>, then the first food.\<close>

definition setup_sketch :: "config \<Rightarrow> (nat \<Rightarrow> point) \<Rightarrow> game result option" where
  "setup_sketch cfg rnd =
     (case initGame cfg DOWN 0 of
        Undef \<Rightarrow> Some Undef
      | Ok g \<Rightarrow>
          (case placeFood rnd (snake g) (FOOD_POINTS cfg) (food g) (drawn g) of
             None \<Rightarrow> None
           | Some Undef \<Rightarrow> Some Undef
           | Some (Ok (f, k)) \<Rightarrow> Some (Ok (g\<lparr>food := f, drawn := k\<rparr>))))"

text \<open>\<open>readDirection\<close>; \<open>joy\<close> holds the two values of \<open>analogRead\<close>.\<close>

definition readDirection :: "config \<Rightarrow> int \<times> int \<Rightarrow> Direction \<Rightarrow> Direction" where
  "readDirection cfg joy defaultDirection =
     (let xPin = fst joy - 512;
          yPin = snd joy - 512;
          inputLength = xPin * xPin + yPin * yPin
      in if inputLength > JOYSTICK_THRESHOLD cfg * JOYSTICK_THRESHOLD cfg then
           (if \<bar>xPin\<bar> > \<bar>yPin\<bar> then (if xPin > 0 then LEFT else RIGHT)
            else (if yPin > 0 then UP else DOWN))
         else defaultDirection)"

subsection \<open>loop()\<close>

text \<open>The heading update at the top of \<open>loop()\<close>:
  \<open>if ((newDirect - direct) % 2) direct = newDirect;\<close>\<close>

definition turn :: "Direction \<Rightarrow> Direction \<Rightarrow> Direction" where
  "turn dir newDirect =
     (if (dir_val newDirect - dir_val dir) smod 2 \<noteq> 0 then newDirect else dir)"

text \<open>The movement: \<open>extend\<close>, then \<open>tryEat\<close> at the head, and \<open>cut\<close> when nothing was eaten.
  The boolean says whether food was eaten.\<close>

definition move :: "Matrix \<Rightarrow> Snake \<Rightarrow> Food \<Rightarrow> Direction \<Rightarrow> (bool \<times> Snake \<times> Food) result" where
  "move canvas sn f dir =
     (case extend canvas sn dir of
        Undef \<Rightarrow> Undef
      | Ok sn1 \<Rightarrow>
          (case getHead sn1 of
             Undef \<Rightarrow> Undef
           | Ok head0 \<Rightarrow>
               (case tryEat f head0 of
                  Undef \<Rightarrow> Undef
                | Ok (eaten, f1) \<Rightarrow>
                    if eaten then Ok (True, sn1, f1)
                    else (case cut canvas sn1 of
                            Undef \<Rightarrow> Undef
                          | Ok sn2 \<Rightarrow> Ok (False, sn2, f1)))))"

text \<open>The number of pieces the refill asks \<open>placeFood\<close> for, if it calls it.\<close>

definition refill_request :: "config \<Rightarrow> Food \<Rightarrow> int option" where
  "refill_request cfg f =
     (if REFILL_IMMEDIATELY cfg then
        (if getCount f < FOOD_POINTS cfg then Some (FOOD_POINTS cfg - getCount f) else None)
      else
        (if getCount f = 0 then Some (FOOD_POINTS cfg) else None))"

definition refill ::
  "config \<Rightarrow> (nat \<Rightarrow> point) \<Rightarrow> Snake \<Rightarrow> Food \<Rightarrow> nat \<Rightarrow> (Food \<times> nat) result option" where
  "refill cfg rnd sn f k =
     (case refill_request cfg f of
        None \<Rightarrow> Some (Ok (f, k))
      | Some numToPlace \<Rightarrow> placeFood rnd sn numToPlace f k)"

text \<open>The end of \<open>loop()\<close>: \<open>playLose\<close> and \<open>playWin\<close> both end with \<open>initGame\<close>.\<close>

datatype outcome = Running | Lost | Won

definition terminal :: "config \<Rightarrow> game \<Rightarrow> (outcome \<times> game) result" where
  "terminal cfg g =
     (case checkSelfCollision (snake g) of
        Undef \<Rightarrow> Undef
      | Ok collided \<Rightarrow>
          if collided then
            (case initGame cfg (direct g) (drawn g) of
               Undef \<Rightarrow> Undef | Ok g' \<Rightarrow> Ok (Lost, g'))
          else if getLength (snake g) = MAX_SNAKE_LENGTH cfg then
            (case initGame cfg (direct g) (drawn g) of
               Undef \<Rightarrow> Undef | Ok g' \<Rightarrow> Ok (Won, g'))
          else Ok (Running, g))"

text \<open>One call of \<open>loop()\<close>. \<open>before_refill\<close> is the state after the movement,
  \<open>before_terminal\<close> the state that is flushed to the display.\<close>

definition before_refill :: "config \<Rightarrow> int \<times> int \<Rightarrow> game \<Rightarrow> (bool \<times> game) result" where
  "before_refill cfg joy g =
     (let newDirect = readDirection cfg joy (direct g);
          dir = turn (direct g) newDirect
      in case move (matrix g) (snake g) (food g) dir of
           Undef \<Rightarrow> Undef
         | Ok (eaten, sn, f) \<Rightarrow> Ok (eaten, g\<lparr>snake := sn, food := f, direct := dir\<rparr>))"

definition before_terminal ::
  "config \<Rightarrow> (nat \<Rightarrow> point) \<Rightarrow> int \<times> int \<Rightarrow> game \<Rightarrow> game result option" where
  "before_terminal cfg rnd joy g =
     (case before_refill cfg joy g of
        Undef \<Rightarrow> Some Undef
      | Ok (eaten, g1) \<Rightarrow>
          (case refill cfg rnd (snake g1) (food g1) (drawn g1) of
             None \<Rightarrow> None
           | Some Undef \<Rightarrow> Some Undef
           | Some (Ok (f, k)) \<Rightarrow> Some (Ok (g1\<lparr>food := f, drawn := k\<rparr>))))"

definition loop ::
  "config \<Rightarrow> (nat \<Rightarrow> point) \<Rightarrow> int \<times> int \<Rightarrow> game \<Rightarrow> (outcome \<times> game) result option" where
  "loop cfg rnd joy g =
     (case before_terminal cfg rnd joy g of
        None \<Rightarrow> None
      | Some Undef \<Rightarrow> Some Undef
      | Some (Ok g2) \<Rightarrow> Some (terminal cfg g2))"

text \<open>Successive calls of \<open>loop()\<close>, one joystick reading per call.\<close>

fun loops :: "config \<Rightarrow> (nat \<Rightarrow> point) \<Rightarrow> (int \<times> int) list \<Rightarrow> game \<Rightarrow> game result option" where
  "loops cfg rnd [] g = Some (Ok g)"
| "loops cfg rnd (joy # joys) g =
     (case loop cfg rnd joy g of
        None \<Rightarrow> None
      | Some Undef \<Rightarrow> Some Undef
      | Some (Ok (out, g')) \<Rightarrow> loops cfg rnd joys g')"

subsection \<open>Example states\<close>

text \<open>An 8 by 8 canvas, a snake of two cells whose head is in the last column, one that
  bites itself, and one that does not.\<close>

definition canvas8 :: Matrix where
  "canvas8 = \<lparr>m_rows = 8, m_columns = 8\<rparr>"

definition snake_at_edge :: Snake where
  "snake_at_edge = \<lparr>m_currentLength = 2, m_snake = [(6, 3), (7, 3), (0, 0), (0, 0)]\<rparr>"

definition snake_biting :: Snake where
  "snake_biting =
     \<lparr>m_currentLength = 5, m_snake = [(1, 1), (2, 1), (2, 2), (1, 2), (2, 1), (0, 0)]\<rparr>"

definition snake_straight :: Snake where
  "snake_straight =
     \<lparr>m_currentLength = 3, m_snake = [(1, 1), (2, 1), (3, 1), (2, 1), (0, 0)]\<rparr>"

text \<open>Three pieces of food in an array of four cells.\<close>

definition food_three :: Food where
  "food_three = \<lparr>m_foodPoints = [(2, 6), (5, 3), (4, 4), (0, 0)], m_foodCount = 3\<rparr>"

text \<open>A sequence of sample points on the 8 by 8 grid, and the game of the sketch as
  \<open>setup()\<close> leaves it under that sequence: the first sample \<open>(7, 1)\<close> is the head of the
  snake and is rejected, the next two are taken.\<close>

definition rnd_ex :: "nat \<Rightarrow> point" where
  "rnd_ex k = (int ((3 * k + 7) mod 8), int ((5 * k + 1) mod 8))"

definition game_start :: game where
  "game_start =
     \<lparr>matrix = \<lparr>m_rows = 8, m_columns = 8\<rparr>,
      snake = \<lparr>m_currentLength = 2,
               m_snake = [(7, 0), (7, 1), (0, 0), (0, 0), (0, 0), (0, 0), (0, 0),
                          (0, 0), (0, 0), (0, 0), (0, 0), (0, 0), (0, 0)]\<rparr>,
      food = \<lparr>m_foodPoints = [(2, 6), (5, 3)], m_foodCount = 2\<rparr>,
      direct = DOWN, drawn = 3\<rparr>"

text \<open>A canvas of two columns and one row whose first point is the snake, with samples that
  alternate between its two points: one point is free.\<close>

definition canvas_2x1 :: Matrix where
  "canvas_2x1 = \<lparr>m_rows = 1, m_columns = 2\<rparr>"

definition snake_one :: Snake where
  "snake_one = \<lparr>m_currentLength = 1, m_snake = [(0, 0), (0, 0)]\<rparr>"

definition rnd_two :: "nat \<Rightarrow> point" where
  "rnd_two k = (int (k mod 2), 0)"

text \<open>The game of the sketch with a piece of food right below the head of the snake, and
  the state in which \<open>loop()\<close> leaves it when the joystick is at rest: the snake has grown
  onto \<open>(7, 2)\<close> and the refill has drawn the sample \<open>(0, 0)\<close>.\<close>

definition game_eat :: game where
  "game_eat = game_start\<lparr>food := \<lparr>m_foodPoints = [(7, 2), (5, 3)], m_foodCount = 2\<rparr>\<rparr>"

definition game_eat_end :: game where
  "game_eat_end =
     \<lparr>matrix = \<lparr>m_rows = 8, m_columns = 8\<rparr>,
      snake = \<lparr>m_currentLength = 3,
               m_snake = [(7, 0), (7, 1), (7, 2), (0, 0), (0, 0), (0, 0), (0, 0),
                          (0, 0), (0, 0), (0, 0), (0, 0), (0, 0), (0, 0)]\<rparr>,
      food = \<lparr>m_foodPoints = [(5, 3), (0, 0)], m_foodCount = 2\<rparr>,
      direct = DOWN, drawn = 4\<rparr>"



definition game_reset_down :: game where
  "game_reset_down =
     \<lparr>matrix = \<lparr>m_rows = 8, m_columns = 8\<rparr>,
      snake = \<lparr>m_currentLength = 2,
               m_snake = [(7, 0), (7, 1), (0, 0), (0, 0), (0, 0), (0, 0), (0, 0),
                          (0, 0), (0, 0), (0, 0), (0, 0), (0, 0), (0, 0)]\<rparr>,
      food = \<lparr>m_foodPoints = [(0, 0), (0, 0)], m_foodCount = 0\<rparr>,
      direct = DOWN, drawn = 5\<rparr>"

text \<open>The same snake heading LEFT with a piece of food on the free cell in front of its
  head: eating it makes the snake reach the maximal length.\<close>

definition game_last_bite :: game where
  "game_last_bite =
     \<lparr>matrix = \<lparr>m_rows = 8, m_columns = 8\<rparr>,
      snake = \<lparr>m_currentLength = 11,
               m_snake = [(0, 0), (1, 0), (2, 0), (3, 0), (4, 0), (5, 0), (5, 1),
                          (4, 1), (3, 1), (2, 1), (1, 1), (0, 0), (0, 0)]\<rparr>,
      food = \<lparr>m_foodPoints = [(0, 1), (5, 3)], m_foodCount = 2\<rparr>,
      direct = LEFT, drawn = 3\<rparr>"

text \<open>A snake whose tail is above the first row of the canvas, as the constructor would
  lay it out heading UP, after one step.\<close>

definition game_tail_off :: game where
  "game_tail_off =
     \<lparr>matrix = \<lparr>m_rows = 8, m_columns = 8\<rparr>,
      snake = \<lparr>m_currentLength = 2,
               m_snake = [(7, - 1), (7, 6), (0, 0), (0, 0), (0, 0), (0, 0), (0, 0),
                          (0, 0), (0, 0), (0, 0), (0, 0), (0, 0), (0, 0)]\<rparr>,
      food = \<lparr>m_foodPoints = [(2, 6), (5, 3)], m_foodCount = 2\<rparr>,
      direct = UP, drawn = 3\<rparr>"

text \<open>Samples that put the first three pieces of food in front of the new snake, the game
  that \<open>setup()\<close> builds with them, and seven joystick readings: at rest three times, then
  RIGHT, DOWN, LEFT and UP.\<close>

definition rnd_line :: "nat \<Rightarrow> point" where
  "rnd_line k = (if k < 3 then (7, 2 + int k) else (int (k mod 8), 7))"

definition game_line :: game where
  "game_line =
     \<lparr>matrix = \<lparr>m_rows = 8, m_columns = 8\<rparr>,
      snake = \<lparr>m_currentLength = 2,
               m_snake = [(7, 0), (7, 1), (0, 0), (0, 0), (0, 0), (0, 0), (0, 0),
                          (0, 0), (0, 0), (0, 0), (0, 0), (0, 0), (0, 0)]\<rparr>,
      food = \<lparr>m_foodPoints = [(7, 2), (7, 3)], m_foodCount = 2\<rparr>,
      direct = DOWN, drawn = 2\<rparr>"

definition joys_up :: "(int \<times> int) list" where
  "joys_up = [(512, 512), (512, 512), (512, 512), (0, 512), (512, 0), (1023, 512), (512, 1023)]"

text \<open>The game of the sketch after three ticks: joystick at rest, pushed to the side that
  reads as RIGHT, at rest again.\<close>

definition game_three_ticks :: game where
  "game_three_ticks =
     \<lparr>matrix = \<lparr>m_rows = 8, m_columns = 8\<rparr>,
      snake = \<lparr>m_currentLength = 2,
               m_snake = [(0, 2), (1, 2), (0, 0), (0, 0), (0, 0), (0, 0), (0, 0),
                          (0, 0), (0, 0), (0, 0), (0, 0), (0, 0), (0, 0)]\<rparr>,
      food = \<lparr>m_foodPoints = [(2, 6), (5, 3)], m_foodCount = 2\<rparr>,
      direct = RIGHT, drawn = 3\<rparr>"

subsection \<open>Notions used in the statements\<close>

text \<open>\<open>placed rnd sn n f k f' k'\<close> describes a return of \<open>placeFood\<close>: the active cells of
  \<open>f'\<close> are those of \<open>f\<close> followed by the accepted samples \<open>ps\<close>, which are pairwise distinct,
  off the snake and off the former food, and drawn at positions from \<open>k\<close> up to \<open>k'\<close>; their
  number is \<open>numToPlace\<close>, or one when \<open>numToPlace\<close> is not positive.\<close>

definition placed :: "(nat \<Rightarrow> point) \<Rightarrow> Snake \<Rightarrow> int \<Rightarrow> Food \<Rightarrow> nat \<Rightarrow> Food \<Rightarrow> nat \<Rightarrow> bool" where
  "placed rnd sn n f k f' k' \<longleftrightarrow>
     (\<exists>ps. food_cells f' = food_cells f @ ps \<and> length ps = nat (max 1 n) \<and> distinct ps
          \<and> set ps \<inter> set (snake_cells sn) = {} \<and> set ps \<inter> set (food_cells f) = {}
          \<and> set ps \<subseteq> rnd ` {k..<k'})
     \<and> m_foodCount f' = m_foodCount f + max 1 n
     \<and> length (m_foodPoints f') = length (m_foodPoints f)
     \<and> 0 \<le> m_foodCount f \<and> m_foodCount f' \<le> int (length (m_foodPoints f'))"

text \<open>The points of the canvas, and those that neither the snake nor the food occupies.\<close>

definition grid :: "Matrix \<Rightarrow> point set" where
  "grid canvas = {0..<getColumnsCount canvas} \<times> {0..<getRowsCount canvas}"

definition free_cells :: "Matrix \<Rightarrow> Snake \<Rightarrow> Food \<Rightarrow> point set" where
  "free_cells canvas sn f = grid canvas - set (snake_cells sn) - set (food_cells f)"

text \<open>\<open>starved G rnd sn n f\<close>: every sample lies in the finite set \<open>G\<close>, the snake and the
  food fit their arrays, the food array has room for one piece per free point of \<open>G\<close>, and
  the free points of \<open>G\<close> are fewer than the pieces \<open>placeFood\<close> still has to place (one
  piece when \<open>numToPlace\<close> is not positive).\<close>

definition starved :: "point set \<Rightarrow> (nat \<Rightarrow> point) \<Rightarrow> Snake \<Rightarrow> int \<Rightarrow> Food \<Rightarrow> bool" where
  "starved G rnd sn n f \<longleftrightarrow>
     finite G \<and> (\<forall>j. rnd j \<in> G)
     \<and> 0 \<le> m_currentLength sn \<and> m_currentLength sn \<le> int (length (m_snake sn))
     \<and> food_wf f
     \<and> m_foodCount f + int (card (G - set (snake_cells sn) - set (food_cells f)))
          \<le> int (length (m_foodPoints f))
     \<and> int (card (G - set (snake_cells sn) - set (food_cells f))) < max 1 n"

text \<open>The length of the snake is within the bounds that hold between two ticks.\<close>

definition len_ok :: "config \<Rightarrow> game \<Rightarrow> bool" where
  "len_ok cfg g \<longleftrightarrow> INIT_SNAKE_LENGTH cfg \<le> getLength (snake g)
                   \<and> getLength (snake g) < MAX_SNAKE_LENGTH cfg"

section \<open>Properties\<close>

subsection \<open>The scan\<close>

lemma scan_for_in_range:
  "0 \<le> i \<Longrightarrow> bound \<le> int (length a) \<Longrightarrow>
   scan_for a bound p i = Ok (\<exists>j. i \<le> j \<and> j < bound \<and> a ! nat j = p)"
proof (induction a bound p i rule: scan_for.induct)
  case (1 a bound p i)
  show ?case
  proof (cases "i < bound")
    case False
    then show ?thesis by (subst scan_for.simps) auto
  next
    case True
    with "1.prems" have get: "arr_get a i = Ok (a ! nat i)"
      by (simp add: arr_get_def)
    show ?thesis
    proof (cases "a ! nat i = p")
      case True
      with \<open>i < bound\<close> get show ?thesis
        by (subst scan_for.simps) auto
    next
      case False
      have ih: "scan_for a bound p (i + 1) = Ok (\<exists>j. i + 1 \<le> j \<and> j < bound \<and> a ! nat j = p)"
        using "1.IH" [OF \<open>i < bound\<close> get False] "1.prems" by simp
      have "(\<exists>j. i + 1 \<le> j \<and> j < bound \<and> a ! nat j = p) = (\<exists>j. i \<le> j \<and> j < bound \<and> a ! nat j = p)"
      proof -
        have "j \<noteq> i" if "a ! nat j = p" for j
          using that False by auto
        then show ?thesis
          by (metis add1_zle_eq order_le_less zless_imp_add1_zle)
      qed
      with ih \<open>i < bound\<close> get False show ?thesis
        by (subst scan_for.simps) simp
    qed
  qed
qed

lemma scan_for_take:
  assumes "0 \<le> bound" "bound \<le> int (length a)"
  shows "scan_for a bound p 0 = Ok (p \<in> set (take (nat bound) a))"
proof -
  have "(\<exists>j. 0 \<le> j \<and> j < bound \<and> a ! nat j = p) = (p \<in> set (take (nat bound) a))"
  proof
    assume "\<exists>j. 0 \<le> j \<and> j < bound \<and> a ! nat j = p"
    then obtain j where j: "0 \<le> j" "j < bound" "a ! nat j = p" by blast
    with assms have "nat j < length (take (nat bound) a)" by simp
    moreover from j have "take (nat bound) a ! nat j = p" by simp
    ultimately show "p \<in> set (take (nat bound) a)"
      by (metis nth_mem)
  next
    assume "p \<in> set (take (nat bound) a)"
    then obtain n where n: "n < length (take (nat bound) a)" "take (nat bound) a ! n = p"
      by (auto simp: in_set_conv_nth)
    then have "0 \<le> int n \<and> int n < bound \<and> a ! nat (int n) = p" by auto
    then show "\<exists>j. 0 \<le> j \<and> j < bound \<and> a ! nat j = p" by blast
  qed
  with scan_for_in_range [of 0 bound a p] assms show ?thesis by simp
qed

lemma smod_nonneg: "0 \<le> a \<Longrightarrow> 0 < b \<Longrightarrow> a smod b = a mod (b::int)"
  by (simp add: signed_modulo_int_def sgn_if)

subsection \<open>Movement on the torus\<close>

lemma extend_head:
  assumes head: "getHead s = Ok (hx, hy)"
    and x: "0 \<le> hx" "hx < getColumnsCount canvas"
    and y: "0 \<le> hy" "hy < getRowsCount canvas"
    and room: "m_currentLength s < int (length (m_snake s))"
    and vec: "makeDirectionVector d = (dx, dy)"
  shows "\<exists>s'. extend canvas s d = Ok s' \<and>
           getHead s' = Ok ((hx + dx + getColumnsCount canvas) mod getColumnsCount canvas,
                            (hy + dy + getRowsCount canvas) mod getRowsCount canvas)"
proof -
  from head have len: "1 \<le> m_currentLength s"
    by (auto simp: getHead_def arr_get_def split: if_splits)
  have d: "-1 \<le> dx" "-1 \<le> dy"
    using vec by (cases d; simp)+
  show ?thesis using head x y room len d vec
    by (simp add: extend_def Let_def point_add_def arr_set_def getHead_def arr_get_def smod_nonneg)
qed

text \<open>
  Claim C2. When the head \<open>(hx, hy)\<close> of the snake lies on the grid and the array has room
  for one more cell, \<open>extend\<close> in direction \<open>d\<close> with unit vector \<open>(dx, dy)\<close> returns, and
  the new head is \<open>((hx + dx + columns) mod columns, (hy + dy + rows) mod rows)\<close>, a point of
  the grid again. At each of the four edges the head reappears on the opposite edge, in the
  same row or column.
\<close>

theorem extend_wraps_on_torus:
  assumes "getHead s = Ok (hx, hy)"
    and "0 \<le> hx" "hx < getColumnsCount canvas"
    and "0 \<le> hy" "hy < getRowsCount canvas"
    and "m_currentLength s < int (length (m_snake s))"
    and "makeDirectionVector d = (dx, dy)"
  shows "\<exists>s' nx ny. extend canvas s d = Ok s' \<and> getHead s' = Ok (nx, ny)
           \<and> nx = (hx + dx + getColumnsCount canvas) mod getColumnsCount canvas
           \<and> ny = (hy + dy + getRowsCount canvas) mod getRowsCount canvas
           \<and> 0 \<le> nx \<and> nx < getColumnsCount canvas \<and> 0 \<le> ny \<and> ny < getRowsCount canvas
           \<and> (d = RIGHT \<and> hx = getColumnsCount canvas - 1 \<longrightarrow> nx = 0 \<and> ny = hy)
           \<and> (d = LEFT \<and> hx = 0 \<longrightarrow> nx = getColumnsCount canvas - 1 \<and> ny = hy)
           \<and> (d = DOWN \<and> hy = getRowsCount canvas - 1 \<longrightarrow> nx = hx \<and> ny = 0)
           \<and> (d = UP \<and> hy = 0 \<longrightarrow> nx = hx \<and> ny = getRowsCount canvas - 1)"
proof -
  let ?c = "getColumnsCount canvas" and ?r = "getRowsCount canvas"
  define nx where "nx = (hx + dx + ?c) mod ?c"
  define ny where "ny = (hy + dy + ?r) mod ?r"
  obtain s' where s': "extend canvas s d = Ok s'" "getHead s' = Ok (nx, ny)"
    using extend_head [OF assms] unfolding nx_def ny_def by blast
  have pos: "0 < ?c" "0 < ?r" using assms by linarith+
  have range: "0 \<le> nx" "nx < ?c" "0 \<le> ny" "ny < ?r"
    using pos by (simp_all add: nx_def ny_def)
  have right: "d = RIGHT \<and> hx = ?c - 1 \<longrightarrow> nx = 0 \<and> ny = hy"
    using assms unfolding nx_def ny_def by auto
  have left: "d = LEFT \<and> hx = 0 \<longrightarrow> nx = ?c - 1 \<and> ny = hy"
    using assms unfolding nx_def ny_def by (auto simp: zmod_minus1)
  have down: "d = DOWN \<and> hy = ?r - 1 \<longrightarrow> nx = hx \<and> ny = 0"
    using assms unfolding nx_def ny_def by auto
  have up: "d = UP \<and> hy = 0 \<longrightarrow> nx = hx \<and> ny = ?r - 1"
    using assms unfolding nx_def ny_def by (auto simp: zmod_minus1)
  show ?thesis
  proof (intro exI conjI)
    show "extend canvas s d = Ok s'" by (rule s')
    show "getHead s' = Ok (nx, ny)" by (rule s')
    show "nx = (hx + dx + ?c) mod ?c" by (rule nx_def)
    show "ny = (hy + dy + ?r) mod ?r" by (rule ny_def)
  qed (use range right left down up in blast)+
qed

theorem extend_wraps_on_torus_witness:
  "getHead snake_at_edge = Ok (7, 3) \<and> makeDirectionVector RIGHT = (1, 0)
   \<and> (\<exists>s'. extend canvas8 snake_at_edge RIGHT = Ok s' \<and> getHead s' = Ok (0, 3))"
proof -
  have h: "getHead snake_at_edge = Ok (7, 3)"
    by (simp add: getHead_def snake_at_edge_def arr_get_def)
  have c: "getColumnsCount canvas8 = 8" "getRowsCount canvas8 = 8"
    by (simp_all add: getColumnsCount_def getRowsCount_def canvas8_def)
  have room: "m_currentLength snake_at_edge < int (length (m_snake snake_at_edge))"
    by (simp add: snake_at_edge_def)
  have v: "makeDirectionVector RIGHT = (1, 0)" by simp
  from extend_wraps_on_torus [OF h _ _ _ _ room v, of canvas8] c h v
  show ?thesis by auto
qed

subsection \<open>The heading update\<close>

text \<open>
  Claim C3. The heading after the update at the top of \<open>loop()\<close> is the requested direction
  exactly when the difference of the two indices in the order LEFT, UP, RIGHT, DOWN is odd
  modulo 4, and the old heading otherwise; so the heading changes if and only if that
  difference is odd, and a request equal or opposite to the heading (difference 0 or 2)
  leaves it. From DOWN, a request UP leaves DOWN, and LEFT and RIGHT are taken. The heading
  that \<open>loop()\<close> stores is the one computed by this rule from the joystick reading.
\<close>

theorem turn_only_by_odd_difference:
  "turn cur req = (if odd ((dir_val req - dir_val cur) mod 4) then req else cur)
   \<and> (turn cur req \<noteq> cur \<longleftrightarrow> odd ((dir_val req - dir_val cur) mod 4))
   \<and> ((dir_val req - dir_val cur) mod 4 = 0 \<or> (dir_val req - dir_val cur) mod 4 = 2
        \<longrightarrow> turn cur req = cur)
   \<and> turn DOWN UP = DOWN \<and> turn DOWN LEFT = LEFT \<and> turn DOWN RIGHT = RIGHT
   \<and> (before_refill cfg joy g = Ok (eaten, g1) \<longrightarrow>
        direct g1 = turn (direct g) (readDirection cfg joy (direct g)))"
proof -
  have a: "turn cur req = (if odd ((dir_val req - dir_val cur) mod 4) then req else cur)"
    by (cases cur; cases req; simp add: turn_def signed_modulo_int_def)
  have b: "turn cur req \<noteq> cur \<longleftrightarrow> odd ((dir_val req - dir_val cur) mod 4)"
    by (cases cur; cases req; simp add: turn_def signed_modulo_int_def)
  have c: "(dir_val req - dir_val cur) mod 4 = 0 \<or> (dir_val req - dir_val cur) mod 4 = 2
        \<longrightarrow> turn cur req = cur"
    by (cases cur; cases req; simp add: turn_def signed_modulo_int_def)
  have d: "turn DOWN UP = DOWN \<and> turn DOWN LEFT = LEFT \<and> turn DOWN RIGHT = RIGHT"
    by (simp add: turn_def signed_modulo_int_def)
  have e: "before_refill cfg joy g = Ok (eaten, g1) \<longrightarrow>
        direct g1 = turn (direct g) (readDirection cfg joy (direct g))"
    by (auto simp: before_refill_def Let_def split: result.splits)
  from a b c d e show ?thesis by blast
qed

theorem turn_only_by_odd_difference_witness:
  "(\<exists>g1. before_refill sketch (0, 512) game_start = Ok (False, g1) \<and> direct g1 = RIGHT)
   \<and> readDirection sketch (0, 512) DOWN = RIGHT \<and> turn DOWN RIGHT = RIGHT"
proof -
  have r: "readDirection sketch (0, 512) (direct game_start) = RIGHT" "direct game_start = DOWN"
    by (simp_all add: readDirection_def sketch_def Let_def game_start_def)
  define g1 where "g1 = game_start\<lparr>snake := \<lparr>m_currentLength = 2,
               m_snake = [(7, 1), (0, 1), (0, 0), (0, 0), (0, 0), (0, 0), (0, 0),
                          (0, 0), (0, 0), (0, 0), (0, 0), (0, 0), (0, 0)]\<rparr>, direct := RIGHT\<rparr>"
  have g1: "before_refill sketch (0, 512) game_start = Ok (False, g1)"
    unfolding g1_def by code_simp
  from turn_only_by_odd_difference [of DOWN RIGHT sketch "(0, 512)" game_start False g1] g1 r
  show ?thesis by auto
qed

subsection \<open>Self-collision\<close>

text \<open>
  Claim C5. For a snake of length \<open>n\<close> (at least one cell, all inside the array),
  \<open>checkSelfCollision\<close> returns true exactly when the head, the cell of index \<open>n - 1\<close>,
  equals a cell of an index below \<open>n - 1\<close>; in terms of the list of occupied cells, exactly
  when the last cell occurs among the others.
\<close>

theorem checkSelfCollision_exact:
  assumes "snake_wf s"
  shows "checkSelfCollision s =
           Ok (\<exists>j. 0 \<le> j \<and> j < m_currentLength s - 1
                  \<and> m_snake s ! nat j = m_snake s ! nat (m_currentLength s - 1))
         \<and> checkSelfCollision s = Ok (last (snake_cells s) \<in> set (butlast (snake_cells s)))"
proof -
  let ?n = "m_currentLength s" and ?a = "m_snake s"
  from assms have n: "1 \<le> ?n" "?n \<le> int (length ?a)"
    by (simp_all add: snake_wf_def)
  then have head: "getHead s = Ok (?a ! nat (?n - 1))"
    by (simp add: getHead_def arr_get_def)
  have one: "checkSelfCollision s =
      Ok (\<exists>j. 0 \<le> j \<and> j < ?n - 1 \<and> ?a ! nat j = ?a ! nat (?n - 1))"
    using head n scan_for_in_range [of 0 "?n - 1" ?a "?a ! nat (?n - 1)"]
    by (simp add: checkSelfCollision_def)
  have cells: "snake_cells s \<noteq> []" "length (snake_cells s) = nat ?n"
    using n by (auto simp: snake_cells_def)
  have l: "last (snake_cells s) = ?a ! nat (?n - 1)"
    using n cells by (simp add: last_conv_nth snake_cells_def nat_diff_distrib)
  have b: "butlast (snake_cells s) = take (nat (?n - 1)) ?a"
    using n by (simp add: snake_cells_def butlast_take nat_diff_distrib)
  have two: "checkSelfCollision s = Ok (last (snake_cells s) \<in> set (butlast (snake_cells s)))"
    using head n scan_for_take [of "?n - 1" ?a "?a ! nat (?n - 1)"] l b
    by (simp add: checkSelfCollision_def)
  from one two show ?thesis by simp
qed

theorem checkSelfCollision_exact_witness:
  "snake_wf snake_biting \<and> checkSelfCollision snake_biting = Ok True
   \<and> snake_wf snake_straight \<and> checkSelfCollision snake_straight = Ok False"
proof -
  have w1: "snake_wf snake_biting" by (simp add: snake_wf_def snake_biting_def)
  have w2: "snake_wf snake_straight" by (simp add: snake_wf_def snake_straight_def)
  from checkSelfCollision_exact [OF w1, THEN conjunct2]
    checkSelfCollision_exact [OF w2, THEN conjunct2] w1 w2
  show ?thesis by (simp add: snake_cells_def snake_biting_def snake_straight_def)
qed

subsection \<open>Results of the scans\<close>

lemma mset_swap_remove:
  fixes a :: "'a list"
  assumes "j < n" "n \<le> length a"
  shows "mset (take (n - 1) (a[j := a ! (n - 1)])) = mset (take n a) - {#a ! j#}"
proof -
  from assms obtain m where n: "n = Suc m" by (cases n) auto
  with assms have m: "m < length a" "j \<le> m" by auto
  have tk: "take (Suc m) a = take m a @ [a ! m]"
    using m by (simp add: take_Suc_conv_app_nth)
  show ?thesis
  proof (cases "j = m")
    case True
    then show ?thesis using n tk by simp
  next
    case False
    with m have jm: "j < m" by simp
    then have "j < length (take m a)" using m by simp
    then have "mset ((take m a)[j := a ! m]) = mset (take m a) - {#take m a ! j#} + {#a ! m#}"
      by (simp add: mset_update)
    moreover have "take m a ! j = a ! j" using jm by simp
    moreover have "a ! j \<in># mset (take m a)"
      using jm m by (metis \<open>j < length (take m a)\<close> \<open>take m a ! j = a ! j\<close> nth_mem set_mset_mset)
    ultimately show ?thesis using n tk jm by (simp add: take_update_swap)
  qed
qed

lemma tryEat_scan_Ok:
  "0 \<le> i \<Longrightarrow> tryEat_scan f p i = Ok (b, f') \<Longrightarrow>
   (b \<longrightarrow>
      (\<exists>j. i \<le> j \<and> j < m_foodCount f \<and> m_foodCount f \<le> int (length (m_foodPoints f))
          \<and> m_foodPoints f ! nat j = p
          \<and> (\<forall>k. i \<le> k \<and> k < j \<longrightarrow> m_foodPoints f ! nat k \<noteq> p)
          \<and> f' = f\<lparr>m_foodPoints := (m_foodPoints f)[nat j := m_foodPoints f ! nat (m_foodCount f - 1)],
                   m_foodCount := m_foodCount f - 1\<rparr>))
   \<and> (\<not> b \<longrightarrow> f' = f \<and> (\<forall>j. i \<le> j \<and> j < m_foodCount f \<longrightarrow>
                      j < int (length (m_foodPoints f)) \<and> m_foodPoints f ! nat j \<noteq> p))"
proof (induction f p i rule: tryEat_scan.induct)
  case (1 f p i)
  let ?n = "m_foodCount f" and ?a = "m_foodPoints f"
  show ?case
  proof (cases "i < ?n")
    case False
    with "1.prems" show ?thesis by (subst (asm) tryEat_scan.simps) auto
  next
    case True
    with "1.prems" have get: "arr_get ?a i = Ok (?a ! nat i)" "i < int (length ?a)"
      by (subst (asm) tryEat_scan.simps; auto simp: arr_get_def split: if_splits)+
    show ?thesis
    proof (cases "?a ! nat i = p")
      case eq: True
      with True get "1.prems"
      have r: "b" "?n \<le> int (length ?a)"
        "f' = f\<lparr>m_foodPoints := ?a[nat i := ?a ! nat (?n - 1)], m_foodCount := ?n - 1\<rparr>"
        by (subst (asm) tryEat_scan.simps;
            auto simp: arr_get_def arr_set_def split: if_splits result.splits)+
      have "\<forall>k. i \<le> k \<and> k < i \<longrightarrow> ?a ! nat k \<noteq> p" by auto
      with True eq r show ?thesis by blast
    next
      case ne: False
      with True get "1.prems" have rec: "tryEat_scan f p (i + 1) = Ok (b, f')"
        by (subst (asm) tryEat_scan.simps) simp
      from "1.IH" [OF True get(1) ne _ rec] "1.prems"
      have ih: "(b \<longrightarrow>
      (\<exists>j. i + 1 \<le> j \<and> j < ?n \<and> ?n \<le> int (length ?a)
          \<and> ?a ! nat j = p
          \<and> (\<forall>k. i + 1 \<le> k \<and> k < j \<longrightarrow> ?a ! nat k \<noteq> p)
          \<and> f' = f\<lparr>m_foodPoints := ?a[nat j := ?a ! nat (?n - 1)],
                   m_foodCount := ?n - 1\<rparr>))
       \<and> (\<not> b \<longrightarrow> f' = f \<and> (\<forall>j. i + 1 \<le> j \<and> j < ?n \<longrightarrow>
                      j < int (length ?a) \<and> ?a ! nat j \<noteq> p))"
        by simp
      have step: "(i \<le> k) = (k = i \<or> i + 1 \<le> k)" for k :: int by auto
      show ?thesis
      proof (cases b)
        case True
        with ih obtain j where j: "i + 1 \<le> j" "j < ?n" "?n \<le> int (length ?a)" "?a ! nat j = p"
          "\<forall>k. i + 1 \<le> k \<and> k < j \<longrightarrow> ?a ! nat k \<noteq> p"
          "f' = f\<lparr>m_foodPoints := ?a[nat j := ?a ! nat (?n - 1)], m_foodCount := ?n - 1\<rparr>"
          by blast
        have "\<forall>k. i \<le> k \<and> k < j \<longrightarrow> ?a ! nat k \<noteq> p"
          using j(5) ne by (metis step)
        moreover have "i \<le> j" using j(1) by simp
        ultimately show ?thesis using True j(2,3,4,6) by blast
      next
        case False
        with ih have "f' = f" and all: "\<forall>j. i + 1 \<le> j \<and> j < ?n \<longrightarrow>
                      j < int (length ?a) \<and> ?a ! nat j \<noteq> p" by simp_all
        have "\<forall>j. i \<le> j \<and> j < ?n \<longrightarrow> j < int (length ?a) \<and> ?a ! nat j \<noteq> p"
          using all ne get(2) by (metis step)
        with False \<open>f' = f\<close> show ?thesis by simp
      qed
    qed
  qed
qed

lemma tryEat_scan_defined:
  "0 \<le> i \<Longrightarrow> food_wf f \<Longrightarrow> tryEat_scan f p i \<noteq> Undef"
proof (induction f p i rule: tryEat_scan.induct)
  case (1 f p i)
  let ?n = "m_foodCount f" and ?a = "m_foodPoints f"
  from "1.prems" have wf: "0 \<le> ?n" "?n \<le> int (length ?a)" by (simp_all add: food_wf_def)
  show ?case
  proof (cases "i < ?n")
    case False
    then show ?thesis by (subst tryEat_scan.simps) auto
  next
    case True
    with "1.prems" wf have get: "arr_get ?a i = Ok (?a ! nat i)"
      by (simp add: arr_get_def)
    show ?thesis
    proof (cases "?a ! nat i = p")
      case eq: True
      with True get wf "1.prems" show ?thesis
        by (subst tryEat_scan.simps) (simp add: arr_get_def arr_set_def)
    next
      case ne: False
      from "1.IH" [OF True get ne] "1.prems"
      have "tryEat_scan f p (i + 1) \<noteq> Undef" by simp
      with True get ne show ?thesis by (subst tryEat_scan.simps) simp
    qed
  qed
qed


lemma in_take_iff:
  "(p \<in> set (take (nat n) a)) = (\<exists>j. 0 \<le> j \<and> j < n \<and> j < int (length a) \<and> a ! nat j = p)"
proof
  assume "p \<in> set (take (nat n) a)"
  then obtain m where m: "m < length (take (nat n) a)" "take (nat n) a ! m = p"
    by (auto simp: in_set_conv_nth)
  then have "0 \<le> int m \<and> int m < n \<and> int m < int (length a) \<and> a ! nat (int m) = p" by auto
  then show "\<exists>j. 0 \<le> j \<and> j < n \<and> j < int (length a) \<and> a ! nat j = p" by blast
next
  assume "\<exists>j. 0 \<le> j \<and> j < n \<and> j < int (length a) \<and> a ! nat j = p"
  then obtain j where j: "0 \<le> j" "j < n" "j < int (length a)" "a ! nat j = p" by blast
  then have "nat j < length (take (nat n) a)" by simp
  moreover from j have "take (nat n) a ! nat j = p" by simp
  ultimately show "p \<in> set (take (nat n) a)" by (metis nth_mem)
qed

lemma scan_for_Ok:
  "0 \<le> i \<Longrightarrow> scan_for a bound p i = Ok b \<Longrightarrow>
   b = (\<exists>j. i \<le> j \<and> j < bound \<and> j < int (length a) \<and> a ! nat j = p)"
proof (induction a bound p i arbitrary: b rule: scan_for.induct)
  case (1 a bound p i)
  show ?case
  proof (cases "i < bound")
    case False
    with "1.prems" show ?thesis by (subst (asm) scan_for.simps) auto
  next
    case True
    with "1.prems" have get: "arr_get a i = Ok (a ! nat i)" "i < int (length a)"
      by (subst (asm) scan_for.simps; auto simp: arr_get_def split: if_splits)+
    show ?thesis
    proof (cases "a ! nat i = p")
      case eq: True
      with True get "1.prems" have "b" by (subst (asm) scan_for.simps) simp
      with True eq get "1.prems" show ?thesis by auto
    next
      case ne: False
      with True get "1.prems" have rec: "scan_for a bound p (i + 1) = Ok b"
        by (subst (asm) scan_for.simps) simp
      from "1.IH" [OF True get(1) ne _ rec] "1.prems"
      have ih: "b = (\<exists>j. i + 1 \<le> j \<and> j < bound \<and> j < int (length a) \<and> a ! nat j = p)"
        by simp
      have "j \<noteq> i" if "a ! nat j = p" for j
        using that ne by auto
      then have "(\<exists>j. i + 1 \<le> j \<and> j < bound \<and> j < int (length a) \<and> a ! nat j = p)
         = (\<exists>j. i \<le> j \<and> j < bound \<and> j < int (length a) \<and> a ! nat j = p)"
        by (metis add1_zle_eq order_le_less zless_imp_add1_zle)
      with ih show ?thesis by simp
    qed
  qed
qed

lemma scan_for_Ok_take:
  assumes "scan_for a bound p 0 = Ok b"
  shows "b = (p \<in> set (take (nat bound) a))"
  using scan_for_Ok [of 0 a bound p b] assms by (simp add: in_take_iff)

subsection \<open>Eating\<close>

text \<open>
  Claim C9. On a food object whose count fits its array, \<open>tryEat\<close> at \<open>p\<close> returns, and it
  returns true exactly when \<open>p\<close> is one of the active food cells. When it returns true the
  count has dropped by one and the active cells are the former ones without one occurrence
  of \<open>p\<close>, as a multiset: the first cell equal to \<open>p\<close> has been overwritten with the last
  active cell. When it returns false the food object is unchanged.
\<close>

theorem tryEat_swap_remove:
  assumes "food_wf f"
  shows "\<exists>b f'. tryEat f p = Ok (b, f')
     \<and> (b \<longleftrightarrow> p \<in> set (food_cells f))
     \<and> (b \<longrightarrow> m_foodCount f' = m_foodCount f - 1
           \<and> mset (food_cells f') = mset (food_cells f) - {#p#}
           \<and> (\<exists>j. 0 \<le> j \<and> j < m_foodCount f \<and> m_foodPoints f ! nat j = p
                \<and> (\<forall>k. 0 \<le> k \<and> k < j \<longrightarrow> m_foodPoints f ! nat k \<noteq> p)
                \<and> m_foodPoints f' = (m_foodPoints f)[nat j := m_foodPoints f ! nat (m_foodCount f - 1)]))
     \<and> (\<not> b \<longrightarrow> f' = f)"
proof -
  let ?n = "m_foodCount f" and ?a = "m_foodPoints f"
  from assms have wf: "0 \<le> ?n" "?n \<le> int (length ?a)" by (simp_all add: food_wf_def)
  from tryEat_scan_defined [of 0 f p] assms
  obtain b f' where r: "tryEat_scan f p 0 = Ok (b, f')"
    by (cases "tryEat_scan f p 0") auto
  note spec = tryEat_scan_Ok [OF _ r, simplified]
  have mem: "b \<longleftrightarrow> p \<in> set (food_cells f)"
  proof (cases b)
    case True
    with spec obtain j where "0 \<le> j" "j < ?n" "?a ! nat j = p" by blast
    with wf True show ?thesis
      unfolding food_cells_def in_take_iff by force
  next
    case False
    with spec have "\<forall>j. 0 \<le> j \<and> j < ?n \<longrightarrow> ?a ! nat j \<noteq> p" by blast
    with False show ?thesis
      unfolding food_cells_def in_take_iff by blast
  qed
  have eaten: "m_foodCount f' = ?n - 1
           \<and> mset (food_cells f') = mset (food_cells f) - {#p#}
           \<and> (\<exists>j. 0 \<le> j \<and> j < ?n \<and> ?a ! nat j = p
                \<and> (\<forall>k. 0 \<le> k \<and> k < j \<longrightarrow> ?a ! nat k \<noteq> p)
                \<and> m_foodPoints f' = ?a[nat j := ?a ! nat (?n - 1)])" if b
  proof -
    from spec that obtain j where j: "0 \<le> j" "j < ?n" "?a ! nat j = p"
      "\<forall>k. 0 \<le> k \<and> k < j \<longrightarrow> ?a ! nat k \<noteq> p"
      "f' = f\<lparr>m_foodPoints := ?a[nat j := ?a ! nat (?n - 1)], m_foodCount := ?n - 1\<rparr>"
      by blast
    have "mset (take (nat ?n - 1) (?a[nat j := ?a ! (nat ?n - 1)])) = mset (take (nat ?n) ?a) - {#?a ! nat j#}"
      using j wf by (intro mset_swap_remove) auto
    then have "mset (food_cells f') = mset (food_cells f) - {#p#}"
      using j by (simp add: food_cells_def nat_diff_distrib)
    moreover have "m_foodCount f' = ?n - 1" "m_foodPoints f' = ?a[nat j := ?a ! nat (?n - 1)]"
      using j(5) by simp_all
    ultimately show ?thesis using j(1-4) by blast
  qed
  have "\<not> b \<longrightarrow> f' = f" using spec by blast
  with r mem eaten show ?thesis
    unfolding tryEat_def by blast
qed

theorem tryEat_swap_remove_witness:
  "food_wf food_three
   \<and> (\<exists>f'. tryEat food_three (2, 6) = Ok (True, f') \<and> m_foodCount f' = 2
          \<and> mset (food_cells f') = {#(5, 3), (4, 4)#})
   \<and> tryEat food_three (1, 1) = Ok (False, food_three)"
proof -
  have wf: "food_wf food_three" by (simp add: food_wf_def food_three_def)
  have c: "food_cells food_three = [(2, 6), (5, 3), (4, 4)]" "m_foodCount food_three = 3"
    by (simp_all add: food_cells_def food_three_def)
  from tryEat_swap_remove [OF wf, of "(2, 6)"] tryEat_swap_remove [OF wf, of "(1, 1)"] wf c
  show ?thesis by auto
qed

subsection \<open>Placing food\<close>

lemma accept_cells:
  assumes "arr_set (m_foodPoints f) (m_foodCount f) p = Ok a"
  shows "food_cells (f\<lparr>m_foodPoints := a, m_foodCount := m_foodCount f + 1\<rparr>) = food_cells f @ [p]"
    and "length a = length (m_foodPoints f)"
    and "0 \<le> m_foodCount f" and "m_foodCount f < int (length (m_foodPoints f))"
proof -
  let ?c = "m_foodCount f" and ?arr = "m_foodPoints f"
  from assms have c: "0 \<le> ?c" "?c < int (length ?arr)" and a: "a = ?arr[nat ?c := p]"
    by (auto simp: arr_set_def split: if_splits)
  then show "0 \<le> ?c" "?c < int (length ?arr)" "length a = length ?arr" by simp_all
  have "nat (?c + 1) = Suc (nat ?c)" using c by simp
  moreover have "nat ?c < length (?arr[nat ?c := p])" using c by simp
  ultimately have "take (nat (?c + 1)) (?arr[nat ?c := p]) = take (nat ?c) (?arr[nat ?c := p]) @ [?arr[nat ?c := p] ! nat ?c]"
    by (simp add: take_Suc_conv_app_nth)
  then show "food_cells (f\<lparr>m_foodPoints := a, m_foodCount := ?c + 1\<rparr>) = food_cells f @ [p]"
    using c a by (simp add: food_cells_def)
qed

lemma placed_last:
  assumes so: "Snake_isOccupied sn (rnd k) = Ok False"
    and fo: "Food_isOccupied f (rnd k) = Ok False"
    and a: "arr_set (m_foodPoints f) (m_foodCount f) (rnd k) = Ok a"
    and n: "n - 1 \<le> 0"
  shows "placed rnd sn n f k (f\<lparr>m_foodPoints := a, m_foodCount := m_foodCount f + 1\<rparr>) (k + 1)"
proof -
  let ?p = "rnd k"
  let ?f1 = "f\<lparr>m_foodPoints := a, m_foodCount := m_foodCount f + 1\<rparr>"
  note ac = accept_cells [OF a]
  have ps: "?p \<notin> set (snake_cells sn)"
    using scan_for_Ok_take [OF so [unfolded Snake_isOccupied_def]] by (simp add: snake_cells_def)
  have pf: "?p \<notin> set (food_cells f)"
    using scan_for_Ok_take [OF fo [unfolded Food_isOccupied_def]] by (simp add: food_cells_def)
  have "food_cells ?f1 = food_cells f @ [?p] \<and> length [?p] = nat (max 1 n) \<and> distinct [?p]
          \<and> set [?p] \<inter> set (snake_cells sn) = {} \<and> set [?p] \<inter> set (food_cells f) = {}
          \<and> set [?p] \<subseteq> rnd ` {k..<k + 1}"
    using ac(1) ps pf n by auto
  then have "\<exists>ps. food_cells ?f1 = food_cells f @ ps \<and> length ps = nat (max 1 n) \<and> distinct ps
          \<and> set ps \<inter> set (snake_cells sn) = {} \<and> set ps \<inter> set (food_cells f) = {}
          \<and> set ps \<subseteq> rnd ` {k..<k + 1}" by (rule exI)
  moreover have "m_foodCount ?f1 = m_foodCount f + max 1 n" using n by simp
  ultimately show ?thesis using ac(2,3,4) unfolding placed_def by simp
qed

lemma placed_more:
  assumes so: "Snake_isOccupied sn (rnd k) = Ok False"
    and fo: "Food_isOccupied f (rnd k) = Ok False"
    and a: "arr_set (m_foodPoints f) (m_foodCount f) (rnd k) = Ok a"
    and n: "\<not> n - 1 \<le> 0"
    and rest: "placed rnd sn (n - 1) (f\<lparr>m_foodPoints := a, m_foodCount := m_foodCount f + 1\<rparr>) (k + 1) f' k'"
  shows "placed rnd sn n f k f' k'"
proof -
  let ?p = "rnd k"
  let ?f1 = "f\<lparr>m_foodPoints := a, m_foodCount := m_foodCount f + 1\<rparr>"
  note ac = accept_cells [OF a]
  have ps: "?p \<notin> set (snake_cells sn)"
    using scan_for_Ok_take [OF so [unfolded Snake_isOccupied_def]] by (simp add: snake_cells_def)
  have pf: "?p \<notin> set (food_cells f)"
    using scan_for_Ok_take [OF fo [unfolded Food_isOccupied_def]] by (simp add: food_cells_def)
  from rest obtain qs where qs: "food_cells f' = food_cells ?f1 @ qs" "length qs = nat (max 1 (n - 1))"
    "distinct qs" "set qs \<inter> set (snake_cells sn) = {}" "set qs \<inter> set (food_cells ?f1) = {}"
    "set qs \<subseteq> rnd ` {k + 1..<k'}"
    and cnt: "m_foodCount f' = m_foodCount ?f1 + max 1 (n - 1)"
    "length (m_foodPoints f') = length (m_foodPoints ?f1)"
    "m_foodCount f' \<le> int (length (m_foodPoints f'))"
    unfolding placed_def by blast
  have k': "k + 1 < k'"
  proof -
    from qs(2) n have "qs \<noteq> []" by auto
    with qs(6) show ?thesis by (cases "k + 1 < k'") auto
  qed
  have img: "rnd ` {k + 1..<k'} \<subseteq> rnd ` {k..<k'}" by (intro image_mono) auto
  have "?p \<in> rnd ` {k..<k'}" using k' by auto
  with qs ac(1) ps pf n img
  have "food_cells f' = food_cells f @ (?p # qs) \<and> length (?p # qs) = nat (max 1 n) \<and> distinct (?p # qs)
          \<and> set (?p # qs) \<inter> set (snake_cells sn) = {} \<and> set (?p # qs) \<inter> set (food_cells f) = {}
          \<and> set (?p # qs) \<subseteq> rnd ` {k..<k'}"
    by auto
  then have "\<exists>ps. food_cells f' = food_cells f @ ps \<and> length ps = nat (max 1 n) \<and> distinct ps
          \<and> set ps \<inter> set (snake_cells sn) = {} \<and> set ps \<inter> set (food_cells f) = {}
          \<and> set ps \<subseteq> rnd ` {k..<k'}" by (rule exI)
  moreover have "m_foodCount f' = m_foodCount f + max 1 n" using cnt(1) n by simp
  ultimately show ?thesis using ac(2,3) cnt(2,3) unfolding placed_def by simp
qed

lemma placed_skip:
  assumes "placed rnd sn n f (k + 1) f' k'"
  shows "placed rnd sn n f k f' k'"
proof -
  have img: "rnd ` {k + 1..<k'} \<subseteq> rnd ` {k..<k'}" by (intro image_mono) auto
  from assms obtain ps where ps: "food_cells f' = food_cells f @ ps" "length ps = nat (max 1 n)"
    "distinct ps" "set ps \<inter> set (snake_cells sn) = {}" "set ps \<inter> set (food_cells f) = {}"
    "set ps \<subseteq> rnd ` {k + 1..<k'}"
    and rest: "m_foodCount f' = m_foodCount f + max 1 n"
     "length (m_foodPoints f') = length (m_foodPoints f)"
     "0 \<le> m_foodCount f" "m_foodCount f' \<le> int (length (m_foodPoints f'))"
    unfolding placed_def by blast
  from ps(6) img have "set ps \<subseteq> rnd ` {k..<k'}" by (rule order_trans)
  with ps(1-5) have "\<exists>ps. food_cells f' = food_cells f @ ps \<and> length ps = nat (max 1 n) \<and> distinct ps
          \<and> set ps \<inter> set (snake_cells sn) = {} \<and> set ps \<inter> set (food_cells f) = {}
          \<and> set ps \<subseteq> rnd ` {k..<k'}" by blast
  with rest show ?thesis unfolding placed_def by simp
qed

lemma placeFood_placed:
  assumes "placeFood rnd sn n f k = Some y"
  shows "\<forall>f' k'. y = Ok (f', k') \<longrightarrow> placed rnd sn n f k f' k'"
proof (rule placeFood.raw_induct
    [where P = "\<lambda>rnd sn n f k y. \<forall>f' k'. y = Ok (f', k') \<longrightarrow> placed rnd sn n f k f' k'",
     OF _ assms], goal_cases)
  case (1 placeFood' rnd sn n f k y)
  note IH = "1"(1)
  note body = "1"(2)
  let ?p = "rnd k"
  show ?case
  proof (cases "Snake_isOccupied sn ?p")
    case Undef
    with body show ?thesis by simp
  next
    case so: (Ok snakeHas)
    show ?thesis
    proof (cases snakeHas)
      case True
      with so body have "placeFood' rnd sn n f (k + 1) = Some y" by simp
      from IH [OF this] show ?thesis by (blast intro: placed_skip)
    next
      case sfree: False
      show ?thesis
      proof (cases "Food_isOccupied f ?p")
        case Undef
        with so sfree body show ?thesis by simp
      next
        case fo: (Ok foodHas)
        show ?thesis
        proof (cases foodHas)
          case True
          with so sfree fo body have "placeFood' rnd sn n f (k + 1) = Some y" by simp
          from IH [OF this] show ?thesis by (blast intro: placed_skip)
        next
          case ffree: False
          show ?thesis
          proof (cases "arr_set (m_foodPoints f) (m_foodCount f) ?p")
            case Undef
            with so sfree fo ffree body show ?thesis by simp
          next
            case a: (Ok a)
            let ?f1 = "f\<lparr>m_foodPoints := a, m_foodCount := m_foodCount f + 1\<rparr>"
            show ?thesis
            proof (cases "n - 1 \<le> 0")
              case True
              with so sfree fo ffree a body have "y = Ok (?f1, k + 1)"
                by (simp add: Let_def)
              moreover have so': "Snake_isOccupied sn ?p = Ok False"
                and fo': "Food_isOccupied f ?p = Ok False"
                using so sfree fo ffree by simp_all
              ultimately show ?thesis using placed_last [where rnd = rnd and k = k, OF so' fo' a True] by simp
            next
              case False
              with so sfree fo ffree a body
              have "placeFood' rnd sn (n - 1) ?f1 (k + 1) = Some y"
                by (simp add: Let_def)
              moreover have so': "Snake_isOccupied sn ?p = Ok False"
                and fo': "Food_isOccupied f ?p = Ok False"
                using so sfree fo ffree by simp_all
              ultimately show ?thesis using IH placed_more [where rnd = rnd and k = k, OF so' fo' a False] by blast
            qed
          qed
        qed
      qed
    qed
  qed
qed

lemma isOccupied_defined:
  assumes "0 \<le> m_currentLength sn" "m_currentLength sn \<le> int (length (m_snake sn))"
  shows "Snake_isOccupied sn p = Ok (p \<in> set (snake_cells sn))"
  using scan_for_take [OF assms] by (simp add: Snake_isOccupied_def snake_cells_def)

lemma Food_isOccupied_defined:
  assumes "food_wf f"
  shows "Food_isOccupied f p = Ok (p \<in> set (food_cells f))"
  using scan_for_take [of "m_foodCount f" "m_foodPoints f" p] assms
  by (simp add: Food_isOccupied_def food_cells_def food_wf_def)

lemma starved_accept:
  assumes st: "starved G rnd sn n f"
    and ps: "rnd k \<notin> set (snake_cells sn)" and pf: "rnd k \<notin> set (food_cells f)"
  shows "\<exists>a. arr_set (m_foodPoints f) (m_foodCount f) (rnd k) = Ok a \<and> \<not> n - 1 \<le> 0
           \<and> starved G rnd sn (n - 1) (f\<lparr>m_foodPoints := a, m_foodCount := m_foodCount f + 1\<rparr>)"
proof -
  let ?p = "rnd k"
  let ?F = "G - set (snake_cells sn) - set (food_cells f)"
  from st have fin: "finite G" and rng: "\<forall>j. rnd j \<in> G"
    and sw: "0 \<le> m_currentLength sn" "m_currentLength sn \<le> int (length (m_snake sn))"
    and fw: "food_wf f"
    and room: "m_foodCount f + int (card ?F) \<le> int (length (m_foodPoints f))"
    and few: "int (card ?F) < max 1 n"
    unfolding starved_def by blast+
  have pF: "?p \<in> ?F" using rng ps pf by blast
  have finF: "finite ?F" using fin by blast
  then have pos: "0 < card ?F" using pF by (metis card_gt_0_iff empty_iff)
  with few have n: "2 \<le> n" by linarith
  from fw have c0: "0 \<le> m_foodCount f" by (simp add: food_wf_def)
  with room pos have c1: "m_foodCount f < int (length (m_foodPoints f))" by linarith
  define a where "a = (m_foodPoints f)[nat (m_foodCount f) := ?p]"
  have a: "arr_set (m_foodPoints f) (m_foodCount f) ?p = Ok a"
    using c0 c1 by (simp add: arr_set_def a_def)
  let ?f1 = "f\<lparr>m_foodPoints := a, m_foodCount := m_foodCount f + 1\<rparr>"
  note ac = accept_cells [OF a]
  have F1: "G - set (snake_cells sn) - set (food_cells ?f1) = ?F - {?p}"
    using ac(1) by auto
  have card1: "int (card (?F - {?p})) = int (card ?F) - 1"
    using finF pF pos by (simp add: card_Diff_singleton of_nat_diff)
  have wf1: "food_wf ?f1" using c0 c1 ac(2) by (simp add: food_wf_def)
  have "starved G rnd sn (n - 1) ?f1"
    unfolding starved_def F1 card1
    using fin rng sw wf1 room few n ac(2) by simp
  with a n show ?thesis by auto
qed

lemma starved_never_returns:
  assumes "starved G rnd sn n f"
  shows "placeFood rnd sn n f k = None"
proof (rule ccontr)
  assume "placeFood rnd sn n f k \<noteq> None"
  then obtain y where y: "placeFood rnd sn n f k = Some y" by blast
  have "\<not> starved G rnd sn n f"
  proof (rule placeFood.raw_induct
      [where P = "\<lambda>rnd sn n f k y. \<not> starved G rnd sn n f", OF _ y], goal_cases)
    case (1 placeFood' rnd sn n f k y)
    note IH = "1"(1)
    note body = "1"(2)
    let ?p = "rnd k"
    show ?case
    proof
      assume st: "starved G rnd sn n f"
      then have so: "Snake_isOccupied sn ?p = Ok (?p \<in> set (snake_cells sn))"
        and fo: "Food_isOccupied f ?p = Ok (?p \<in> set (food_cells f))"
        unfolding starved_def by (simp_all add: isOccupied_defined Food_isOccupied_defined)
      show False
      proof (cases "?p \<in> set (snake_cells sn) \<or> ?p \<in> set (food_cells f)")
        case True
        with so fo body have "placeFood' rnd sn n f (k + 1) = Some y"
          by (cases "?p \<in> set (snake_cells sn)") (simp_all add: Let_def)
        from IH [OF this] st show False by simp
      next
        case False
        then have ps: "?p \<notin> set (snake_cells sn)" and pf: "?p \<notin> set (food_cells f)" by simp_all
        from starved_accept [OF st ps pf] obtain a
          where a: "arr_set (m_foodPoints f) (m_foodCount f) ?p = Ok a" "\<not> n - 1 \<le> 0"
            "starved G rnd sn (n - 1) (f\<lparr>m_foodPoints := a, m_foodCount := m_foodCount f + 1\<rparr>)"
          by blast
        with so fo ps pf body
        have "placeFood' rnd sn (n - 1) (f\<lparr>m_foodPoints := a, m_foodCount := m_foodCount f + 1\<rparr>) (k + 1) = Some y"
          by (simp add: Let_def)
        from IH [OF this] a(3) show False by simp
      qed
    qed
  qed
  with assms show False by simp
qed

lemma placeFood_first_free:
  assumes sw: "0 \<le> m_currentLength sn" "m_currentLength sn \<le> int (length (m_snake sn))"
    and fw: "food_wf f"
    and room: "m_foodCount f < int (length (m_foodPoints f))"
    and n: "n \<le> 1"
    and kj: "k \<le> j"
    and busy: "\<forall>i. k \<le> i \<and> i < j \<longrightarrow> rnd i \<in> set (snake_cells sn) \<union> set (food_cells f)"
    and free: "rnd j \<notin> set (snake_cells sn) \<union> set (food_cells f)"
  shows "placeFood rnd sn n f k =
           Some (Ok (f\<lparr>m_foodPoints := (m_foodPoints f)[nat (m_foodCount f) := rnd j],
                       m_foodCount := m_foodCount f + 1\<rparr>, j + 1))"
  using kj busy
proof (induction "j - k" arbitrary: k)
  case 0
  then have "k = j" by simp
  have a: "arr_set (m_foodPoints f) (m_foodCount f) (rnd j) = Ok ((m_foodPoints f)[nat (m_foodCount f) := rnd j])"
    using fw room by (simp add: arr_set_def food_wf_def)
  show ?case
    unfolding \<open>k = j\<close> using free n a
    by (subst placeFood.simps)
       (simp add: isOccupied_defined [OF sw] Food_isOccupied_defined [OF fw] Let_def)
next
  case (Suc d)
  then have lt: "k < j" and d: "d = j - (k + 1)" by simp_all
  with Suc.prems have occ: "rnd k \<in> set (snake_cells sn) \<union> set (food_cells f)" by simp
  have "placeFood rnd sn n f k = placeFood rnd sn n f (k + 1)"
    using occ
    by (subst placeFood.simps)
       (auto simp add: isOccupied_defined [OF sw] Food_isOccupied_defined [OF fw] Let_def)
  also have "\<dots> = Some (Ok (f\<lparr>m_foodPoints := (m_foodPoints f)[nat (m_foodCount f) := rnd j],
                       m_foodCount := m_foodCount f + 1\<rparr>, j + 1))"
    using Suc.hyps(1) [OF d] lt Suc.prems(2) by simp
  finally show ?case .
qed

text \<open>
  Claim C6. Whatever the snake, if the active food cells are pairwise distinct and none of
  them is a snake cell, then after a call of \<open>placeFood\<close> that returns, for any sample
  sequence and any \<open>numToPlace\<close>, no active food cell is a snake cell and the active food
  cells are again pairwise distinct.
\<close>

theorem placeFood_keeps_food_exclusive:
  assumes "distinct (food_cells f)"
    and "set (food_cells f) \<inter> set (snake_cells sn) = {}"
    and "placeFood rnd sn n f k = Some (Ok (f', k'))"
  shows "set (food_cells f') \<inter> set (snake_cells sn) = {} \<and> distinct (food_cells f')"
proof -
  from placeFood_placed [OF assms(3)] have "placed rnd sn n f k f' k'" by simp
  then obtain ps where ps: "food_cells f' = food_cells f @ ps" "distinct ps"
    "set ps \<inter> set (snake_cells sn) = {}" "set ps \<inter> set (food_cells f) = {}"
    unfolding placed_def by blast
  with assms(1,2) show ?thesis by auto
qed

theorem placeFood_keeps_food_exclusive_witness:
  "distinct (food_cells (Food_new 2))
   \<and> set (food_cells (Food_new 2)) \<inter> set (snake_cells (snake game_start)) = {}
   \<and> placeFood rnd_ex (snake game_start) 2 (Food_new 2) 0 = Some (Ok (food game_start, 3))
   \<and> set (food_cells (food game_start)) \<inter> set (snake_cells (snake game_start)) = {}
   \<and> distinct (food_cells (food game_start))"
proof -
  have d: "distinct (food_cells (Food_new 2))"
    and e: "set (food_cells (Food_new 2)) \<inter> set (snake_cells (snake game_start)) = {}"
    by (simp_all add: food_cells_def Food_new_def)
  have r: "placeFood rnd_ex (snake game_start) 2 (Food_new 2) 0 = Some (Ok (food game_start, 3))"
    by code_simp
  from placeFood_keeps_food_exclusive [OF d e r] d e r show ?thesis by simp
qed

text \<open>
  Claim C8. A call of \<open>placeFood\<close> with \<open>numToPlace \<ge> 1\<close> that returns has accepted exactly
  \<open>numToPlace\<close> samples: they are appended to the active cells and the food count has risen by
  \<open>numToPlace\<close>. There is no bound on the retries: when every sample is a point of the grid,
  the snake and the food fit their arrays, the food array has room for \<open>numToPlace\<close> more
  pieces, and fewer than \<open>numToPlace\<close> points of the grid are free of snake and food, the
  call never returns.
\<close>

theorem placeFood_unbounded_retry:
  "(1 \<le> n \<and> placeFood rnd sn n f k = Some (Ok (f', k')) \<longrightarrow>
      m_foodCount f' = m_foodCount f + n
      \<and> (\<exists>ps. food_cells f' = food_cells f @ ps \<and> int (length ps) = n
              \<and> set ps \<subseteq> rnd ` {k..<k'}))
   \<and> (1 \<le> n \<and> (\<forall>j. rnd j \<in> grid canvas) \<and> snake_wf sn \<and> food_wf f
       \<and> m_foodCount f + n \<le> int (length (m_foodPoints f))
       \<and> int (card (free_cells canvas sn f)) < n \<longrightarrow> placeFood rnd sn n f k = None)"
proof (intro conjI impI)
  assume a: "1 \<le> n \<and> placeFood rnd sn n f k = Some (Ok (f', k'))"
  with placeFood_placed [of rnd sn n f k "Ok (f', k')"]
  have p: "placed rnd sn n f k f' k'" by simp
  with a show "m_foodCount f' = m_foodCount f + n" unfolding placed_def by simp
  from p obtain ps where "food_cells f' = food_cells f @ ps" "length ps = nat (max 1 n)"
    "set ps \<subseteq> rnd ` {k..<k'}" unfolding placed_def by blast
  with a have "food_cells f' = food_cells f @ ps \<and> int (length ps) = n \<and> set ps \<subseteq> rnd ` {k..<k'}"
    by simp
  then show "\<exists>ps. food_cells f' = food_cells f @ ps \<and> int (length ps) = n \<and> set ps \<subseteq> rnd ` {k..<k'}"
    by (rule exI)
next
  assume a: "1 \<le> n \<and> (\<forall>j. rnd j \<in> grid canvas) \<and> snake_wf sn \<and> food_wf f
       \<and> m_foodCount f + n \<le> int (length (m_foodPoints f))
       \<and> int (card (free_cells canvas sn f)) < n"
  have "finite (grid canvas)" by (simp add: grid_def)
  with a have "starved (grid canvas) rnd sn n f"
    unfolding starved_def free_cells_def snake_wf_def by auto
  then show "placeFood rnd sn n f k = None" by (rule starved_never_returns)
qed

lemma grid_2x1: "grid canvas_2x1 = {(0, 0), (1, 0)}"
proof -
  have "{0..<2::int} = {0, 1}" by auto
  moreover have "{0..<1::int} = {0}" by auto
  ultimately show ?thesis
    by (simp add: grid_def canvas_2x1_def getColumnsCount_def getRowsCount_def) 
qed

theorem placeFood_unbounded_retry_witness:
  "placeFood rnd_ex (snake game_start) 2 (Food_new 2) 0 = Some (Ok (food game_start, 3))
   \<and> m_foodCount (food game_start) = m_foodCount (Food_new 2) + 2
   \<and> (\<forall>j. rnd_two j \<in> grid canvas_2x1) \<and> snake_wf snake_one \<and> food_wf (Food_new 2)
   \<and> card (free_cells canvas_2x1 snake_one (Food_new 2)) = 1
   \<and> placeFood rnd_two snake_one 2 (Food_new 2) 0 = None"
proof -
  have r: "placeFood rnd_ex (snake game_start) 2 (Food_new 2) 0 = Some (Ok (food game_start, 3))"
    by code_simp
  have rng: "\<forall>j. rnd_two j \<in> grid canvas_2x1"
  proof
    fix j :: nat
    have "j mod 2 = 0 \<or> j mod 2 = 1" by auto
    then show "rnd_two j \<in> grid canvas_2x1"
      unfolding grid_2x1 rnd_two_def by auto
  qed
  have sw: "snake_wf snake_one" by (simp add: snake_wf_def snake_one_def)
  have fw: "food_wf (Food_new 2)" by (simp add: food_wf_def Food_new_def)
  have fr: "free_cells canvas_2x1 snake_one (Food_new 2) = {(1, 0)}"
    unfolding free_cells_def grid_2x1
    by (auto simp: snake_cells_def snake_one_def food_cells_def Food_new_def)
  have room: "m_foodCount (Food_new 2) + 2 \<le> int (length (m_foodPoints (Food_new 2)))"
    by (simp add: Food_new_def)
  from placeFood_unbounded_retry [of 2 rnd_ex "snake game_start" "Food_new 2" 0 "food game_start" 3 canvas_2x1]
    placeFood_unbounded_retry [of 2 rnd_two snake_one "Food_new 2" 0 "food game_start" 3 canvas_2x1]
    r rng sw fw fr room
  show ?thesis by simp
qed

text \<open>
  Claim C10. A call of \<open>placeFood\<close> with \<open>numToPlace \<le> 0\<close> that returns has placed exactly
  one piece, and it does return once a sample is free (snake and food fitting their arrays,
  the food array having room for one piece). The refill of \<open>loop()\<close> never makes such a
  call: with a positive \<open>FOOD_POINTS\<close>, as in the sketch, either strategy asks \<open>placeFood\<close>
  for a positive number of pieces, and the refill calls \<open>placeFood\<close> with that number only.
\<close>

theorem placeFood_nonpositive_request:
  "(n \<le> 0 \<and> placeFood rnd sn n f k = Some (Ok (f', k')) \<longrightarrow>
      m_foodCount f' = m_foodCount f + 1 \<and> (\<exists>p. food_cells f' = food_cells f @ [p]))
   \<and> (n \<le> 0 \<and> snake_wf sn \<and> food_wf f \<and> m_foodCount f < int (length (m_foodPoints f))
       \<and> k \<le> j \<and> rnd j \<notin> set (snake_cells sn) \<union> set (food_cells f) \<longrightarrow>
       (\<exists>g k'. placeFood rnd sn n f k = Some (Ok (g, k')) \<and> m_foodCount g = m_foodCount f + 1))
   \<and> (0 < FOOD_POINTS cfg \<and> refill_request cfg f = Some m \<longrightarrow> 0 < m)
   \<and> refill cfg rnd sn f k =
       (case refill_request cfg f of
          None \<Rightarrow> Some (Ok (f, k))
        | Some m \<Rightarrow> placeFood rnd sn m f k)"
proof (intro conjI impI)
  assume a: "n \<le> 0 \<and> placeFood rnd sn n f k = Some (Ok (f', k'))"
  with placeFood_placed [of rnd sn n f k "Ok (f', k')"]
  have p: "placed rnd sn n f k f' k'" by simp
  with a show "m_foodCount f' = m_foodCount f + 1" unfolding placed_def by simp
  from p obtain ps where ps: "food_cells f' = food_cells f @ ps" "length ps = nat (max 1 n)"
    unfolding placed_def by blast
  with a have "length ps = 1" by simp
  then obtain p where "ps = [p]" by (cases ps) auto
  with ps(1) show "\<exists>p. food_cells f' = food_cells f @ [p]" by blast
next
  assume a: "n \<le> 0 \<and> snake_wf sn \<and> food_wf f \<and> m_foodCount f < int (length (m_foodPoints f))
       \<and> k \<le> j \<and> rnd j \<notin> set (snake_cells sn) \<union> set (food_cells f)"
  let ?free = "\<lambda>i. k \<le> i \<and> rnd i \<notin> set (snake_cells sn) \<union> set (food_cells f)"
  define j0 where "j0 = (LEAST i. ?free i)"
  from a have fj: "?free j" by simp
  have j0: "?free j0" unfolding j0_def using fj by (rule LeastI)
  have least: "j0 \<le> i" if "?free i" for i
    unfolding j0_def using that by (rule Least_le)
  have busy: "\<forall>i. k \<le> i \<and> i < j0 \<longrightarrow> rnd i \<in> set (snake_cells sn) \<union> set (food_cells f)"
    using least by (meson not_less)
  from a have sw: "0 \<le> m_currentLength sn" "m_currentLength sn \<le> int (length (m_snake sn))"
    by (simp_all add: snake_wf_def)
  from a have n1: "n \<le> 1" by simp
  from placeFood_first_free [OF sw _ _ n1 _ busy] a j0
  have "placeFood rnd sn n f k =
           Some (Ok (f\<lparr>m_foodPoints := (m_foodPoints f)[nat (m_foodCount f) := rnd j0],
                       m_foodCount := m_foodCount f + 1\<rparr>, j0 + 1))"
    by simp
  then show "\<exists>g k'. placeFood rnd sn n f k = Some (Ok (g, k')) \<and> m_foodCount g = m_foodCount f + 1"
    by simp
next
  assume "0 < FOOD_POINTS cfg \<and> refill_request cfg f = Some m"
  then show "0 < m"
    by (auto simp: refill_request_def getCount_def split: if_splits)
next
  show "refill cfg rnd sn f k =
       (case refill_request cfg f of
          None \<Rightarrow> Some (Ok (f, k))
        | Some m \<Rightarrow> placeFood rnd sn m f k)"
    by (simp add: refill_def)
qed

theorem placeFood_nonpositive_request_witness:
  "placeFood rnd_ex (snake game_start) 0 (Food_new 2) 0
     = Some (Ok (\<lparr>m_foodPoints = [(2, 6), (0, 0)], m_foodCount = 1\<rparr>, 2))
   \<and> m_foodCount (Food_new 2) = 0
   \<and> snake_wf (snake game_start) \<and> food_wf (Food_new 2)
   \<and> rnd_ex 1 \<notin> set (snake_cells (snake game_start)) \<union> set (food_cells (Food_new 2))
   \<and> refill_request sketch (Food_new 2) = Some 2
   \<and> refill_request (sketch\<lparr>REFILL_IMMEDIATELY := False\<rparr>) (Food_new 2) = Some 2
   \<and> 0 < FOOD_POINTS sketch"
proof -
  have r: "placeFood rnd_ex (snake game_start) 0 (Food_new 2) 0
     = Some (Ok (\<lparr>m_foodPoints = [(2, 6), (0, 0)], m_foodCount = 1\<rparr>, 2))"
    by code_simp
  have sw: "snake_wf (snake game_start)" by (simp add: snake_wf_def game_start_def)
  have fw: "food_wf (Food_new 2)" "m_foodCount (Food_new 2) = 0"
    by (simp_all add: food_wf_def Food_new_def)
  have fr: "rnd_ex 1 \<notin> set (snake_cells (snake game_start)) \<union> set (food_cells (Food_new 2))"
    by (simp add: rnd_ex_def snake_cells_def game_start_def food_cells_def Food_new_def)
  have q: "refill_request sketch (Food_new 2) = Some 2"
    "refill_request (sketch\<lparr>REFILL_IMMEDIATELY := False\<rparr>) (Food_new 2) = Some 2"
    "0 < FOOD_POINTS sketch"
    by (simp_all add: refill_request_def sketch_def getCount_def Food_new_def)
  from placeFood_nonpositive_request
      [of 0 rnd_ex "snake game_start" "Food_new 2" 0
          "\<lparr>m_foodPoints = [(2, 6), (0, 0)], m_foodCount = 1\<rparr>" 2 1 sketch 2]
    r sw fw fr q
  show ?thesis by simp
qed

subsection \<open>The two halves of a movement\<close>

lemma extend_Ok:
  assumes "extend canvas s d = Ok s1"
  shows "\<exists>h. getHead s1 = Ok h
           \<and> m_currentLength s1 = m_currentLength s + 1
           \<and> m_snake s1 = (m_snake s)[nat (m_currentLength s) := h]
           \<and> snake_cells s1 = snake_cells s @ [h]
           \<and> 1 \<le> m_currentLength s \<and> m_currentLength s < int (length (m_snake s))"
proof -
  let ?n = "m_currentLength s" and ?a = "m_snake s"
  from assms obtain h0 where h0: "getHead s = Ok h0"
    by (cases "getHead s") (simp_all add: extend_def)
  then have n1: "1 \<le> ?n" by (auto simp: getHead_def arr_get_def split: if_splits)
  from assms h0 obtain h a where a: "arr_set ?a ?n h = Ok a"
    and s1: "s1 = s\<lparr>m_snake := a, m_currentLength := ?n + 1\<rparr>"
    by (auto simp: extend_def Let_def split: if_splits result.splits)
  from a have lt: "?n < int (length ?a)" and aeq: "a = ?a[nat ?n := h]"
    by (auto simp: arr_set_def split: if_splits)
  have head: "getHead s1 = Ok h"
    using n1 lt by (simp add: s1 aeq getHead_def arr_get_def)
  have "nat (?n + 1) = Suc (nat ?n)" using n1 by simp
  moreover have "nat ?n < length (?a[nat ?n := h])" using n1 lt by simp
  ultimately have "take (nat (?n + 1)) (?a[nat ?n := h]) = take (nat ?n) (?a[nat ?n := h]) @ [?a[nat ?n := h] ! nat ?n]"
    by (simp add: take_Suc_conv_app_nth)
  then have cells: "snake_cells s1 = snake_cells s @ [h]"
    using n1 lt by (simp add: s1 aeq snake_cells_def)
  from head s1 aeq cells n1 lt show ?thesis by simp
qed

lemma extend_defined:
  assumes "snake_wf s" "m_currentLength s < int (length (m_snake s))"
    and "getColumnsCount canvas \<noteq> 0" "getRowsCount canvas \<noteq> 0"
  shows "extend canvas s d \<noteq> Undef"
  using assms
  by (simp add: extend_def snake_wf_def getHead_def arr_get_def arr_set_def Let_def)

lemma cut_shift_Ok:
  "0 \<le> i \<Longrightarrow> cut_shift len a i = Ok a' \<Longrightarrow>
   length a' = length a
   \<and> (\<forall>j. a' ! j = (if nat i \<le> j \<and> int j < len then a ! (j + 1) else a ! j))
   \<and> (i < len \<longrightarrow> len < int (length a))"
proof (induction len a i arbitrary: a' rule: cut_shift.induct)
  case (1 len a i)
  show ?case
  proof (cases "i < len")
    case False
    with "1.prems" have "a' = a" by (subst (asm) cut_shift.simps) simp
    with False show ?thesis by auto
  next
    case True
    with "1.prems" have get: "arr_get a (i + 1) = Ok (a ! nat (i + 1))" "i + 1 < int (length a)"
      by (subst (asm) cut_shift.simps; auto simp: arr_get_def split: if_splits)+
    define a1 where "a1 = a[nat i := a ! nat (i + 1)]"
    have set: "arr_set a i (a ! nat (i + 1)) = Ok a1"
      using "1.prems"(1) get(2) by (simp add: arr_set_def a1_def)
    from True get(1) set "1.prems" have rec: "cut_shift len a1 (i + 1) = Ok a'"
      by (subst (asm) cut_shift.simps) simp
    from "1.IH" [OF True get(1) set _ rec] "1.prems"(1)
    have ih: "length a' = length a1"
      "\<forall>j. a' ! j = (if nat (i + 1) \<le> j \<and> int j < len then a1 ! (j + 1) else a1 ! j)"
      "i + 1 < len \<longrightarrow> len < int (length a1)"
      by simp_all
    have len: "length a' = length a" using ih(1) by (simp add: a1_def)
    have bound: "len < int (length a)"
    proof (cases "i + 1 < len")
      case True
      with ih(3) show ?thesis by (simp add: a1_def)
    next
      case False
      with \<open>i < len\<close> get(2) show ?thesis by simp
    qed
    have nth: "a' ! j = (if nat i \<le> j \<and> int j < len then a ! (j + 1) else a ! j)" for j
    proof -
      have ni: "nat (i + 1) = Suc (nat i)" using "1.prems"(1) by simp
      consider "j < nat i" | "j = nat i" | "nat i < j" by linarith
      then show ?thesis
      proof cases
        case 1
        then show ?thesis using ih(2) ni by (simp add: a1_def)
      next
        case 2
        then have "a' ! j = a1 ! j" using ih(2) ni by simp
        also have "\<dots> = a ! nat (i + 1)"
          using 2 "1.prems"(1) get(2) by (simp add: a1_def)
        finally show ?thesis using 2 True "1.prems"(1) ni by simp
      next
        case 3
        then show ?thesis using ih(2) ni by (simp add: a1_def)
      qed
    qed
    from len nth bound show ?thesis by simp
  qed
qed

lemma cut_Ok:
  assumes "cut canvas s = Ok s2"
  shows "m_currentLength s2 = m_currentLength s - 1 \<and> snake_cells s2 = tl (snake_cells s)
         \<and> length (m_snake s2) = length (m_snake s)
         \<and> (\<exists>t. getTail s = Ok t \<and> setPixel canvas t False = Ok ())"
proof -
  let ?n = "m_currentLength s" and ?a = "m_snake s"
  from assms obtain t where t: "getTail s = Ok t"
    by (cases "getTail s") (simp_all add: cut_def)
  with assms have px: "setPixel canvas t False = Ok ()"
    by (cases "setPixel canvas t False") (simp_all add: cut_def)
  with assms t have "cut_shift ?n ?a 0 \<noteq> Undef"
    by (cases "cut_shift ?n ?a 0") (simp_all add: cut_def)
  then obtain a where a: "cut_shift ?n ?a 0 = Ok a"
    by (cases "cut_shift ?n ?a 0") simp_all
  with assms t px have s2: "s2 = s\<lparr>m_snake := a, m_currentLength := ?n - 1\<rparr>"
    by (simp add: cut_def)
  note spec = cut_shift_Ok [OF order_refl a]
  from spec have len: "length a = length ?a" by (rule conjunct1)
  from spec have all: "\<forall>j. a ! j = (if nat 0 \<le> j \<and> int j < ?n then ?a ! (j + 1) else ?a ! j)"
    by (rule conjunct2 [THEN conjunct1])
  have nth: "a ! j = (if int j < ?n then ?a ! (j + 1) else ?a ! j)" for j
    using all [rule_format, of j] by simp
  from spec have bound: "0 < ?n \<longrightarrow> ?n < int (length ?a)"
    by (rule conjunct2 [THEN conjunct2])
  have "take (nat (?n - 1)) a = tl (take (nat ?n) ?a)"
  proof (cases "0 < ?n")
    case False
    then show ?thesis by simp
  next
    case True
    with bound have b: "?n < int (length ?a)" by simp
    show ?thesis
    proof (rule nth_equalityI)
      show "length (take (nat (?n - 1)) a) = length (tl (take (nat ?n) ?a))"
        using True b len by simp
    next
      fix j assume "j < length (take (nat (?n - 1)) a)"
      then have j: "int j < ?n - 1" using len by auto
      then have "take (nat (?n - 1)) a ! j = a ! j" by simp
      also have "\<dots> = ?a ! (j + 1)" using nth [of j] j by simp
      also have "\<dots> = tl (take (nat ?n) ?a) ! j"
      proof -
        have "j < length (tl (take (nat ?n) ?a))" using j b True by simp
        then have "tl (take (nat ?n) ?a) ! j = take (nat ?n) ?a ! Suc j" by (rule nth_tl)
        also have "\<dots> = ?a ! Suc j" using j by simp
        finally show ?thesis by simp
      qed
      finally show "take (nat (?n - 1)) a ! j = tl (take (nat ?n) ?a) ! j" .
    qed
  qed
  then have cells: "snake_cells s2 = tl (snake_cells s)"
    unfolding s2 snake_cells_def by simp
  have "m_currentLength s2 = ?n - 1" "length (m_snake s2) = length ?a"
    unfolding s2 using len by simp_all
  with cells t px show ?thesis by simp
qed


lemma cut_shift_defined:
  "0 \<le> i \<Longrightarrow> len < int (length a) \<Longrightarrow> cut_shift len a i \<noteq> Undef"
proof (induction len a i rule: cut_shift.induct)
  case (1 len a i)
  show ?case
  proof (cases "i < len")
    case False
    then show ?thesis by (subst cut_shift.simps) simp
  next
    case True
    with "1.prems" have get: "arr_get a (i + 1) = Ok (a ! nat (i + 1))"
      by (simp add: arr_get_def)
    have set: "arr_set a i (a ! nat (i + 1)) = Ok (a[nat i := a ! nat (i + 1)])"
      using True "1.prems" by (simp add: arr_set_def)
    from "1.IH" [OF True get set] "1.prems"
    have "cut_shift len (a[nat i := a ! nat (i + 1)]) (i + 1) \<noteq> Undef" by simp
    with True get set show ?thesis by (subst cut_shift.simps) simp
  qed
qed

lemma cut_defined:
  assumes "0 \<le> m_currentLength s" "m_currentLength s < int (length (m_snake s))"
    and "getTail s = Ok t" "setPixel canvas t False = Ok ()"
  shows "cut canvas s \<noteq> Undef"
proof -
  have "cut_shift (m_currentLength s) (m_snake s) 0 \<noteq> Undef"
    using assms(1,2) by (intro cut_shift_defined) simp_all
  then show ?thesis using assms(3,4) by (auto simp: cut_def split: result.splits)
qed

lemma cut_off_canvas:
  assumes "getTail s = Ok t" "setPixel canvas t False = Undef"
  shows "cut canvas s = Undef"
  using assms by (simp add: cut_def)

text \<open>On a canvas with \<open>columns \<le> rows \<le> 16\<close> the write of \<open>setPixel\<close> is defined at every
  point of the grid.\<close>

lemma setPixel_on_grid:
  assumes "getColumnsCount canvas \<le> getRowsCount canvas" "getRowsCount canvas \<le> 16"
    and "p \<in> grid canvas"
  shows "setPixel canvas p v = Ok ()"
  using assms
  by (auto simp: setPixel_def grid_def getColumnsCount_def getRowsCount_def Let_def)

lemma tryEat_Ok:
  assumes "tryEat f p = Ok (b, f')"
  shows "(b \<longleftrightarrow> p \<in> set (food_cells f))
       \<and> (b \<longrightarrow> m_foodCount f' = m_foodCount f - 1)
       \<and> (\<not> b \<longrightarrow> f' = f)"
proof -
  let ?n = "m_foodCount f" and ?a = "m_foodPoints f"
  note spec = tryEat_scan_Ok [OF order_refl assms [unfolded tryEat_def]]
  have mem: "b \<longleftrightarrow> p \<in> set (food_cells f)"
  proof (cases b)
    case True
    with spec obtain j where "0 \<le> j" "j < ?n" "?n \<le> int (length ?a)" "?a ! nat j = p" by blast
    with True show ?thesis
      unfolding food_cells_def in_take_iff by force
  next
    case False
    with spec have "\<forall>j. 0 \<le> j \<and> j < ?n \<longrightarrow> ?a ! nat j \<noteq> p" by blast
    with False show ?thesis
      unfolding food_cells_def in_take_iff by blast
  qed
  have "b \<longrightarrow> m_foodCount f' = ?n - 1"
  proof
    assume b
    with spec obtain j where "f' = f\<lparr>m_foodPoints := ?a[nat j := ?a ! nat (?n - 1)], m_foodCount := ?n - 1\<rparr>"
      by blast
    then show "m_foodCount f' = ?n - 1" by simp
  qed
  moreover have "\<not> b \<longrightarrow> f' = f" using spec by blast
  ultimately show ?thesis using mem by blast
qed

lemma move_Ok:
  assumes "move canvas sn f d = Ok (eaten, sn', f')"
  shows "\<exists>sn1 h. extend canvas sn d = Ok sn1 \<and> getHead sn1 = Ok h
           \<and> (eaten \<longleftrightarrow> h \<in> set (food_cells f))
           \<and> (eaten \<longrightarrow> sn' = sn1 \<and> m_foodCount f' = m_foodCount f - 1)
           \<and> (\<not> eaten \<longrightarrow> cut canvas sn1 = Ok sn' \<and> f' = f)"
proof -
  from assms obtain sn1 where e: "extend canvas sn d = Ok sn1"
    by (cases "extend canvas sn d") (simp_all add: move_def)
  from extend_Ok [OF e] obtain h where h: "getHead sn1 = Ok h" by blast
  from assms e h obtain b f1 where t: "tryEat f h = Ok (b, f1)"
    by (cases "tryEat f h") (auto simp: move_def)
  note te = tryEat_Ok [OF t]
  show ?thesis
  proof (cases b)
    case True
    with assms e h t have "eaten" "sn' = sn1" "f' = f1" by (simp_all add: move_def)
    with e h te True show ?thesis by blast
  next
    case False
    with assms e h t have "\<not> eaten" "cut canvas sn1 = Ok sn'" "f' = f1"
      by (cases "cut canvas sn1"; simp add: move_def)+
    with e h te False show ?thesis by blast
  qed
qed

lemma move_length:
  assumes "move canvas sn f d = Ok (eaten, sn', f')"
  shows "m_currentLength sn' = (if eaten then m_currentLength sn + 1 else m_currentLength sn)"
proof -
  from move_Ok [OF assms] obtain sn1 where e: "extend canvas sn d = Ok sn1"
    and r: "eaten \<longrightarrow> sn' = sn1" "\<not> eaten \<longrightarrow> cut canvas sn1 = Ok sn'" by blast
  from extend_Ok [OF e] have l1: "m_currentLength sn1 = m_currentLength sn + 1" by blast
  show ?thesis
  proof (cases eaten)
    case True
    with r l1 show ?thesis by simp
  next
    case False
    with r have "cut canvas sn1 = Ok sn'" by simp
    from cut_Ok [OF this] l1 False show ?thesis by simp
  qed
qed

text \<open>The movement case by case: the snake \<open>sn1\<close> after \<open>extend\<close>, its head \<open>h\<close>, and the
  tail \<open>t\<close> that \<open>cut\<close> clears on the canvas.\<close>

lemma move_cases:
  assumes sw: "snake_wf sn" and room: "m_currentLength sn + 1 < int (length (m_snake sn))"
    and fw: "food_wf f"
    and dims: "getColumnsCount canvas \<noteq> 0" "getRowsCount canvas \<noteq> 0"
  shows "\<exists>sn1 h t. extend canvas sn d = Ok sn1 \<and> getHead sn1 = Ok h
           \<and> getTail sn = Ok t \<and> getTail sn1 = Ok t
           \<and> m_currentLength sn1 = m_currentLength sn + 1
           \<and> snake_cells sn1 = snake_cells sn @ [h]
           \<and> (h \<in> set (food_cells f) \<longrightarrow>
                (\<exists>f1. move canvas sn f d = Ok (True, sn1, f1)
                      \<and> m_foodCount f1 = m_foodCount f - 1))
           \<and> (h \<notin> set (food_cells f) \<and> setPixel canvas t False = Ok () \<longrightarrow>
                (\<exists>sn2. move canvas sn f d = Ok (False, sn2, f)
                      \<and> m_currentLength sn2 = m_currentLength sn
                      \<and> snake_cells sn2 = tl (snake_cells sn) @ [h]))
           \<and> (h \<notin> set (food_cells f) \<and> setPixel canvas t False = Undef \<longrightarrow>
                move canvas sn f d = Undef)"
proof -
  from sw room dims have "extend canvas sn d \<noteq> Undef" by (intro extend_defined) simp_all
  then obtain sn1 where e: "extend canvas sn d = Ok sn1" by (cases "extend canvas sn d") simp_all
  from extend_Ok [OF e] obtain h where h: "getHead sn1 = Ok h"
    and l1: "m_currentLength sn1 = m_currentLength sn + 1"
    and a1: "m_snake sn1 = (m_snake sn)[nat (m_currentLength sn) := h]"
    and c1: "snake_cells sn1 = snake_cells sn @ [h]" by blast
  from sw have n1: "1 \<le> m_currentLength sn" "m_currentLength sn \<le> int (length (m_snake sn))"
    by (simp_all add: snake_wf_def)
  define t where "t = m_snake sn ! 0"
  have pos: "0 < length (m_snake sn)" using n1 by linarith
  have t: "getTail sn = Ok t" using pos by (simp add: getTail_def arr_get_def t_def)
  have t1: "getTail sn1 = Ok t" using n1 a1 pos by (simp add: getTail_def arr_get_def t_def)
  have nonempty: "snake_cells sn \<noteq> []" using n1 by (auto simp: snake_cells_def)
  from tryEat_scan_defined [OF order_refl fw, of h]
  obtain b f1 where te: "tryEat f h = Ok (b, f1)"
    by (cases "tryEat_scan f h 0") (auto simp: tryEat_def)
  note spec = tryEat_Ok [OF te]
  have yes: "h \<in> set (food_cells f) \<longrightarrow>
                (\<exists>f1. move canvas sn f d = Ok (True, sn1, f1)
                      \<and> m_foodCount f1 = m_foodCount f - 1)"
    using spec e h te by (auto simp: move_def)
  have no: "h \<notin> set (food_cells f) \<and> setPixel canvas t False = Ok () \<longrightarrow>
                (\<exists>sn2. move canvas sn f d = Ok (False, sn2, f)
                      \<and> m_currentLength sn2 = m_currentLength sn
                      \<and> snake_cells sn2 = tl (snake_cells sn) @ [h])"
  proof
    assume a: "h \<notin> set (food_cells f) \<and> setPixel canvas t False = Ok ()"
    with spec have b: "\<not> b" "f1 = f" by simp_all
    have "cut canvas sn1 \<noteq> Undef"
      using n1 room l1 a1 t1 a by (intro cut_defined [where t = t]) simp_all
    then obtain sn2 where c: "cut canvas sn1 = Ok sn2" by (cases "cut canvas sn1") simp_all
    from cut_Ok [OF c] l1 c1 nonempty
    have "m_currentLength sn2 = m_currentLength sn" "snake_cells sn2 = tl (snake_cells sn) @ [h]"
      by simp_all
    moreover have "move canvas sn f d = Ok (False, sn2, f)"
      using e h te b c by (simp add: move_def)
    ultimately show "\<exists>sn2. move canvas sn f d = Ok (False, sn2, f)
                      \<and> m_currentLength sn2 = m_currentLength sn
                      \<and> snake_cells sn2 = tl (snake_cells sn) @ [h]" by blast
  qed
  have off: "h \<notin> set (food_cells f) \<and> setPixel canvas t False = Undef \<longrightarrow>
                move canvas sn f d = Undef"
  proof
    assume a: "h \<notin> set (food_cells f) \<and> setPixel canvas t False = Undef"
    with spec have b: "\<not> b" by simp
    from cut_off_canvas [OF t1] a have "cut canvas sn1 = Undef" by simp
    with e h te b show "move canvas sn f d = Undef" by (simp add: move_def)
  qed
  from e h t t1 l1 c1 yes no off show ?thesis by blast
qed

subsection \<open>Eating or cutting\<close>

lemma extend_on_grid:
  assumes "getHead s = Ok p" "p \<in> grid canvas"
    and "extend canvas s d = Ok s1" "getHead s1 = Ok h"
  shows "h \<in> grid canvas"
proof -
  obtain hx hy where p: "p = (hx, hy)" by (cases p)
  obtain dx dy where v: "makeDirectionVector d = (dx, dy)" by (cases "makeDirectionVector d")
  from assms(2) p have b: "0 \<le> hx" "hx < getColumnsCount canvas"
    "0 \<le> hy" "hy < getRowsCount canvas"
    by (simp_all add: grid_def)
  from extend_Ok [OF assms(3)] have room: "m_currentLength s < int (length (m_snake s))"
    by blast
  from extend_head [OF assms(1) [unfolded p] b room v] assms(3,4)
  have h: "h = ((hx + dx + getColumnsCount canvas) mod getColumnsCount canvas,
               (hy + dy + getRowsCount canvas) mod getRowsCount canvas)"
    by auto
  from b have "0 < getColumnsCount canvas" "0 < getRowsCount canvas" by linarith+
  then show ?thesis unfolding h grid_def by simp
qed

lemma refill_count:
  assumes "refill cfg rnd sn f k = Some (Ok (f', k'))"
  shows "getCount f' = (case refill_request cfg f of
                          None \<Rightarrow> getCount f
                        | Some n \<Rightarrow> getCount f + max 1 n)"
proof (cases "refill_request cfg f")
  case None
  with assms show ?thesis by (simp add: refill_def)
next
  case (Some n)
  with assms have "placeFood rnd sn n f k = Some (Ok (f', k'))" by (simp add: refill_def)
  from placeFood_placed [OF this] have "placed rnd sn n f k f' k'" by simp
  then have "m_foodCount f' = m_foodCount f + max 1 n" unfolding placed_def by blast
  with Some show ?thesis by (simp add: getCount_def)
qed

lemma running_tick_end:
  assumes br: "before_refill cfg joy g = Ok (eaten, g1)"
    and l: "loop cfg rnd joy g = Some (Ok (Running, g'))"
  shows "snake g' = snake g1
       \<and> getCount (food g') = (case refill_request cfg (food g1) of
                                 None \<Rightarrow> getCount (food g1)
                               | Some n \<Rightarrow> getCount (food g1) + max 1 n)"
proof -
  from l br obtain f k where rf: "refill cfg rnd (snake g1) (food g1) (drawn g1) = Some (Ok (f, k))"
    and t: "terminal cfg (g1\<lparr>food := f, drawn := k\<rparr>) = Ok (Running, g')"
    by (auto simp: loop_def before_terminal_def split: option.splits result.splits)
  from t have g': "g' = g1\<lparr>food := f, drawn := k\<rparr>"
    by (auto simp: terminal_def split: result.splits if_splits)
  from refill_count [OF rf] g' show ?thesis by simp
qed

text \<open>
  Claim C1 says that a tick whose new head is a food cell ends with the food count one
  lower. It does not: the refill of the same tick places food again. In the game below the
  head moves onto the food at \<open>(7, 2)\<close>, and at the end of \<open>loop()\<close> the count is 2, as
  before.
\<close>

theorem eat_tick_end_counterexample:
  "extend (matrix game_eat) (snake game_eat) DOWN = Ok (snake game_eat_end)
   \<and> getHead (snake game_eat_end) = Ok (7, 2)
   \<and> (7, 2) \<in> set (food_cells (food game_eat))
   \<and> loop sketch rnd_ex (512, 512) game_eat = Some (Ok (Running, game_eat_end))
   \<and> getCount (food game_eat_end) = getCount (food game_eat)
   \<and> getCount (food game_eat_end) \<noteq> getCount (food game_eat) - 1"
proof -
  have 1: "extend (matrix game_eat) (snake game_eat) DOWN = Ok (snake game_eat_end)"
    by code_simp
  have 2: "getHead (snake game_eat_end) = Ok (7, 2)" by code_simp
  have 3: "(7, 2) \<in> set (food_cells (food game_eat))"
    by (simp add: food_cells_def game_eat_def)
  have 4: "loop sketch rnd_ex (512, 512) game_eat = Some (Ok (Running, game_eat_end))"
    by code_simp
  have 5: "getCount (food game_eat_end) = getCount (food game_eat)"
    "getCount (food game_eat_end) \<noteq> getCount (food game_eat) - 1"
    by (simp_all add: getCount_def game_eat_def game_eat_end_def)
  from 1 2 3 4 5 show ?thesis by blast
qed

text \<open>
  Claim C1, amended. Take a game whose snake has at least one cell and two free cells
  behind its head in the array, whose food count fits its array, and whose head is on the
  grid of a canvas with \<open>columns \<le> rows \<le> 16\<close>, as in the sketch. Then \<open>extend\<close> returns, its
  new head \<open>h\<close> is on the grid, where the pixel that \<open>extend\<close> sets is inside the display
  buffer, and what follows depends on \<open>h\<close> only.
  If \<open>h\<close> is an active food cell, food is eaten and \<open>cut\<close> is not called: after the
  movement the snake is one cell longer, its tail is the same cell, its cells are the former
  ones followed by \<open>h\<close>, and the food count is one lower. Otherwise \<open>cut\<close> is called: when
  the tail lies on the canvas, so that \<open>cut\<close> may clear its pixel, the length is the one at
  the start of the tick, the cells are the former ones without the tail, followed by \<open>h\<close>,
  and the food is unchanged; when the tail lies off the canvas the tick has undefined
  behaviour. If \<open>loop()\<close> ends without a win or a loss, the snake at the end of the tick is
  the snake after the movement, and the food count at the end of the tick is the count
  after the movement plus the number of pieces the refill has placed: after eating it is
  one lower than at the start when the refill does not fire, and it is \<open>FOOD_POINTS\<close> under
  the immediate refill (the count at the start not exceeding \<open>FOOD_POINTS\<close>).
\<close>

theorem eat_or_cut_in_tick:
  assumes "snake_wf (snake g)"
    and "m_currentLength (snake g) + 1 < int (length (m_snake (snake g)))"
    and "food_wf (food g)"
    and "getColumnsCount (matrix g) \<le> getRowsCount (matrix g)"
    and "getRowsCount (matrix g) \<le> 16"
    and "getHead (snake g) = Ok p" and "p \<in> grid (matrix g)"
  shows "\<exists>sn1 h t.
       extend (matrix g) (snake g) (turn (direct g) (readDirection cfg joy (direct g))) = Ok sn1
     \<and> getHead sn1 = Ok h \<and> getTail (snake g) = Ok t
     \<and> h \<in> grid (matrix g) \<and> setPixel (matrix g) h True = Ok ()
     \<and> (h \<in> set (food_cells (food g)) \<longrightarrow>
          (\<exists>g1. before_refill cfg joy g = Ok (True, g1)
              \<and> getLength (snake g1) = getLength (snake g) + 1
              \<and> getCount (food g1) = getCount (food g) - 1
              \<and> getTail (snake g1) = Ok t
              \<and> snake_cells (snake g1) = snake_cells (snake g) @ [h]))
     \<and> (h \<notin> set (food_cells (food g)) \<and> setPixel (matrix g) t False = Ok () \<longrightarrow>
          (\<exists>g1. before_refill cfg joy g = Ok (False, g1)
              \<and> getLength (snake g1) = getLength (snake g)
              \<and> snake_cells (snake g1) = tl (snake_cells (snake g)) @ [h]
              \<and> food g1 = food g))
     \<and> (h \<notin> set (food_cells (food g)) \<and> setPixel (matrix g) t False = Undef \<longrightarrow>
          before_refill cfg joy g = Undef)
     \<and> (\<forall>rnd eaten g1 g'.
            before_refill cfg joy g = Ok (eaten, g1)
            \<and> loop cfg rnd joy g = Some (Ok (Running, g')) \<longrightarrow>
          snake g' = snake g1
          \<and> getCount (food g') = (case refill_request cfg (food g1) of
                                     None \<Rightarrow> getCount (food g1)
                                   | Some n \<Rightarrow> getCount (food g1) + max 1 n)
          \<and> (eaten \<and> refill_request cfg (food g1) = None \<longrightarrow>
                getCount (food g') = getCount (food g) - 1)
          \<and> (eaten \<and> REFILL_IMMEDIATELY cfg \<and> getCount (food g) \<le> FOOD_POINTS cfg \<longrightarrow>
                getCount (food g') = FOOD_POINTS cfg))"
proof -
  let ?d = "turn (direct g) (readDirection cfg joy (direct g))"
  let ?c = "matrix g" and ?sn = "snake g" and ?f = "food g"
  have br: "before_refill cfg joy g =
      (case move ?c ?sn ?f ?d of
         Undef \<Rightarrow> Undef
       | Ok (eaten, sn, f) \<Rightarrow> Ok (eaten, g\<lparr>snake := sn, food := f, direct := ?d\<rparr>))"
    by (simp add: before_refill_def Let_def)
  from assms(7) have dims: "getColumnsCount ?c \<noteq> 0" "getRowsCount ?c \<noteq> 0"
    by (auto simp: grid_def)
  from move_cases [OF assms(1-3) dims, of ?d] obtain sn1 h t
    where e: "extend ?c ?sn ?d = Ok sn1" and h: "getHead sn1 = Ok h"
      and t: "getTail ?sn = Ok t" and t1: "getTail sn1 = Ok t"
      and l1: "m_currentLength sn1 = m_currentLength ?sn + 1"
      and c1: "snake_cells sn1 = snake_cells ?sn @ [h]"
      and yes: "h \<in> set (food_cells ?f) \<longrightarrow>
                (\<exists>f1. move ?c ?sn ?f ?d = Ok (True, sn1, f1)
                      \<and> m_foodCount f1 = m_foodCount ?f - 1)"
      and no: "h \<notin> set (food_cells ?f) \<and> setPixel ?c t False = Ok () \<longrightarrow>
                (\<exists>sn2. move ?c ?sn ?f ?d = Ok (False, sn2, ?f)
                      \<and> m_currentLength sn2 = m_currentLength ?sn
                      \<and> snake_cells sn2 = tl (snake_cells ?sn) @ [h])"
      and off: "h \<notin> set (food_cells ?f) \<and> setPixel ?c t False = Undef \<longrightarrow>
                move ?c ?sn ?f ?d = Undef"
    by blast
  have A: "h \<in> set (food_cells ?f) \<longrightarrow>
          (\<exists>g1. before_refill cfg joy g = Ok (True, g1)
              \<and> getLength (snake g1) = getLength ?sn + 1
              \<and> getCount (food g1) = getCount ?f - 1
              \<and> getTail (snake g1) = Ok t
              \<and> snake_cells (snake g1) = snake_cells ?sn @ [h])"
  proof
    assume "h \<in> set (food_cells ?f)"
    with yes obtain f1 where m: "move ?c ?sn ?f ?d = Ok (True, sn1, f1)"
      and f1: "m_foodCount f1 = m_foodCount ?f - 1" by blast
    let ?g1 = "g\<lparr>snake := sn1, food := f1, direct := ?d\<rparr>"
    have "before_refill cfg joy g = Ok (True, ?g1)" using br m by simp
    moreover have "getLength (snake ?g1) = getLength ?sn + 1"
      "getCount (food ?g1) = getCount ?f - 1" "getTail (snake ?g1) = Ok t"
      "snake_cells (snake ?g1) = snake_cells ?sn @ [h]"
      using l1 f1 t1 c1 by (simp_all add: getLength_def getCount_def)
    ultimately show "\<exists>g1. before_refill cfg joy g = Ok (True, g1)
              \<and> getLength (snake g1) = getLength ?sn + 1
              \<and> getCount (food g1) = getCount ?f - 1
              \<and> getTail (snake g1) = Ok t
              \<and> snake_cells (snake g1) = snake_cells ?sn @ [h]" by blast
  qed
  have B: "h \<notin> set (food_cells ?f) \<and> setPixel ?c t False = Ok () \<longrightarrow>
          (\<exists>g1. before_refill cfg joy g = Ok (False, g1)
              \<and> getLength (snake g1) = getLength ?sn
              \<and> snake_cells (snake g1) = tl (snake_cells ?sn) @ [h]
              \<and> food g1 = ?f)"
  proof
    assume "h \<notin> set (food_cells ?f) \<and> setPixel ?c t False = Ok ()"
    with no obtain sn2 where m: "move ?c ?sn ?f ?d = Ok (False, sn2, ?f)"
      and s2: "m_currentLength sn2 = m_currentLength ?sn"
        "snake_cells sn2 = tl (snake_cells ?sn) @ [h]" by blast
    let ?g1 = "g\<lparr>snake := sn2, food := ?f, direct := ?d\<rparr>"
    have "before_refill cfg joy g = Ok (False, ?g1)" using br m by simp
    moreover have "getLength (snake ?g1) = getLength ?sn"
      "snake_cells (snake ?g1) = tl (snake_cells ?sn) @ [h]" "food ?g1 = ?f"
      using s2 by (simp_all add: getLength_def)
    ultimately show "\<exists>g1. before_refill cfg joy g = Ok (False, g1)
              \<and> getLength (snake g1) = getLength ?sn
              \<and> snake_cells (snake g1) = tl (snake_cells ?sn) @ [h]
              \<and> food g1 = ?f" by blast
  qed
  have C: "h \<notin> set (food_cells ?f) \<and> setPixel ?c t False = Undef \<longrightarrow>
          before_refill cfg joy g = Undef"
    using off br by simp
  have D: "\<forall>rnd eaten g1 g'.
            before_refill cfg joy g = Ok (eaten, g1)
            \<and> loop cfg rnd joy g = Some (Ok (Running, g')) \<longrightarrow>
          snake g' = snake g1
          \<and> getCount (food g') = (case refill_request cfg (food g1) of
                                     None \<Rightarrow> getCount (food g1)
                                   | Some n \<Rightarrow> getCount (food g1) + max 1 n)
          \<and> (eaten \<and> refill_request cfg (food g1) = None \<longrightarrow>
                getCount (food g') = getCount ?f - 1)
          \<and> (eaten \<and> REFILL_IMMEDIATELY cfg \<and> getCount ?f \<le> FOOD_POINTS cfg \<longrightarrow>
                getCount (food g') = FOOD_POINTS cfg)"
  proof (intro allI impI)
    fix rnd eaten g1 g'
    assume a: "before_refill cfg joy g = Ok (eaten, g1)
            \<and> loop cfg rnd joy g = Some (Ok (Running, g'))"
    then have b1: "before_refill cfg joy g = Ok (eaten, g1)"
      and lp: "loop cfg rnd joy g = Some (Ok (Running, g'))" by simp_all
    note fin = running_tick_end [OF b1 lp]
    have cnt: "eaten \<longrightarrow> getCount (food g1) = getCount ?f - 1"
    proof
      assume eaten
      from b1 obtain sn' f' where m: "move ?c ?sn ?f ?d = Ok (eaten, sn', f')"
        and g1: "g1 = g\<lparr>snake := sn', food := f', direct := ?d\<rparr>"
        using br by (auto split: result.splits)
      from move_Ok [OF m] \<open>eaten\<close> have "m_foodCount f' = m_foodCount ?f - 1" by blast
      with g1 show "getCount (food g1) = getCount ?f - 1" by (simp add: getCount_def)
    qed
    have e1: "eaten \<and> refill_request cfg (food g1) = None \<longrightarrow>
                getCount (food g') = getCount ?f - 1"
      using fin cnt by simp
    have e2: "eaten \<and> REFILL_IMMEDIATELY cfg \<and> getCount ?f \<le> FOOD_POINTS cfg \<longrightarrow>
                getCount (food g') = FOOD_POINTS cfg"
    proof
      assume x: "eaten \<and> REFILL_IMMEDIATELY cfg \<and> getCount ?f \<le> FOOD_POINTS cfg"
      with cnt have c: "getCount (food g1) = getCount ?f - 1" by simp
      with x have "refill_request cfg (food g1) = Some (FOOD_POINTS cfg - getCount (food g1))"
        by (simp add: refill_request_def)
      with fin c x show "getCount (food g') = FOOD_POINTS cfg" by simp
    qed
    from fin e1 e2 show "snake g' = snake g1
          \<and> getCount (food g') = (case refill_request cfg (food g1) of
                                     None \<Rightarrow> getCount (food g1)
                                   | Some n \<Rightarrow> getCount (food g1) + max 1 n)
          \<and> (eaten \<and> refill_request cfg (food g1) = None \<longrightarrow>
                getCount (food g') = getCount ?f - 1)
          \<and> (eaten \<and> REFILL_IMMEDIATELY cfg \<and> getCount ?f \<le> FOOD_POINTS cfg \<longrightarrow>
                getCount (food g') = FOOD_POINTS cfg)" by blast
  qed
  from extend_on_grid [OF assms(6,7) e h] have hg: "h \<in> grid ?c" .
  from setPixel_on_grid [OF assms(4,5) hg] have px: "setPixel ?c h True = Ok ()" .
  from e h t hg px A B C D show ?thesis by blast
qed

theorem eat_or_cut_in_tick_witness:
  "snake_wf (snake game_eat)
   \<and> m_currentLength (snake game_eat) + 1 < int (length (m_snake (snake game_eat)))
   \<and> food_wf (food game_eat)
   \<and> getColumnsCount (matrix game_eat) \<le> getRowsCount (matrix game_eat)
   \<and> getRowsCount (matrix game_eat) \<le> 16
   \<and> getHead (snake game_eat) = Ok (7, 1) \<and> (7, 1) \<in> grid (matrix game_eat)
   \<and> (\<exists>g1. before_refill sketch (512, 512) game_eat = Ok (True, g1)
          \<and> getLength (snake g1) = 3 \<and> getCount (food g1) = 1)
   \<and> loop sketch rnd_ex (512, 512) game_eat = Some (Ok (Running, game_eat_end))
   \<and> getCount (food game_eat_end) = FOOD_POINTS sketch"
proof -
  have h: "snake_wf (snake game_eat)"
    "m_currentLength (snake game_eat) + 1 < int (length (m_snake (snake game_eat)))"
    "food_wf (food game_eat)"
    "getColumnsCount (matrix game_eat) \<le> getRowsCount (matrix game_eat)"
    "getRowsCount (matrix game_eat) \<le> 16"
    "getHead (snake game_eat) = Ok (7, 1)" "(7, 1) \<in> grid (matrix game_eat)"
    by (simp_all add: snake_wf_def food_wf_def getColumnsCount_def getRowsCount_def
          getHead_def arr_get_def grid_def game_eat_def game_start_def)
  have ev: "before_refill sketch (512, 512) game_eat
              = Ok (True, game_eat_end\<lparr>food := \<lparr>m_foodPoints = [(5, 3), (5, 3)], m_foodCount = 1\<rparr>,
                                       drawn := 3\<rparr>)"
    by code_simp
  have lp: "loop sketch rnd_ex (512, 512) game_eat = Some (Ok (Running, game_eat_end))"
    by code_simp
  have v: "getLength (snake game_eat) = 2" "getCount (food game_eat) = 2"
    "REFILL_IMMEDIATELY sketch" "FOOD_POINTS sketch = 2"
    by (simp_all add: getLength_def getCount_def game_eat_def game_start_def sketch_def)
  from eat_or_cut_in_tick [OF h, of sketch "(512, 512)"] obtain sn1 h0 t
    where yes: "h0 \<in> set (food_cells (food game_eat)) \<longrightarrow>
          (\<exists>g1. before_refill sketch (512, 512) game_eat = Ok (True, g1)
              \<and> getLength (snake g1) = getLength (snake game_eat) + 1
              \<and> getCount (food g1) = getCount (food game_eat) - 1
              \<and> getTail (snake g1) = Ok t
              \<and> snake_cells (snake g1) = snake_cells (snake game_eat) @ [h0])"
      and fin: "\<forall>rnd eaten g1 g'.
            before_refill sketch (512, 512) game_eat = Ok (eaten, g1)
            \<and> loop sketch rnd (512, 512) game_eat = Some (Ok (Running, g')) \<longrightarrow>
          snake g' = snake g1
          \<and> getCount (food g') = (case refill_request sketch (food g1) of
                                     None \<Rightarrow> getCount (food g1)
                                   | Some n \<Rightarrow> getCount (food g1) + max 1 n)
          \<and> (eaten \<and> refill_request sketch (food g1) = None \<longrightarrow>
                getCount (food g') = getCount (food game_eat) - 1)
          \<and> (eaten \<and> REFILL_IMMEDIATELY sketch
               \<and> getCount (food game_eat) \<le> FOOD_POINTS sketch \<longrightarrow>
                getCount (food g') = FOOD_POINTS sketch)"
    by blast
  define g1 where
    "g1 = game_eat_end\<lparr>food := \<lparr>m_foodPoints = [(5, 3), (5, 3)], m_foodCount = 1\<rparr>, drawn := 3\<rparr>"
  from fin have "before_refill sketch (512, 512) game_eat = Ok (True, g1)
            \<and> loop sketch rnd_ex (512, 512) game_eat = Some (Ok (Running, game_eat_end)) \<longrightarrow>
          (True \<and> REFILL_IMMEDIATELY sketch
               \<and> getCount (food game_eat) \<le> FOOD_POINTS sketch \<longrightarrow>
                getCount (food game_eat_end) = FOOD_POINTS sketch)"
    by blast
  with ev lp v have c: "getCount (food game_eat_end) = FOOD_POINTS sketch"
    by (simp add: g1_def)
  have g1: "\<exists>g1. before_refill sketch (512, 512) game_eat = Ok (True, g1)
          \<and> getLength (snake g1) = 3 \<and> getCount (food g1) = 1"
    using ev by (simp add: getLength_def getCount_def game_eat_end_def)
  from h g1 lp c show ?thesis by blast
qed

text \<open>The three other cases at work. Under the other refill strategy the count at the end
  of the eating tick is one lower. From \<open>game_start\<close> nothing is eaten and the snake keeps its
  length. With the tail above the first row, \<open>cut\<close> is undefined. And a tick that ends with
  a win resets the game: the snake that ate its way to twelve cells is replaced by a new
  one of two cells, with no food placed yet.\<close>

lemma eat_or_cut_examples:
  "loop (sketch\<lparr>REFILL_IMMEDIATELY := False\<rparr>) rnd_ex (512, 512) game_eat
     = Some (Ok (Running,
         game_eat_end\<lparr>food := \<lparr>m_foodPoints = [(5, 3), (5, 3)], m_foodCount = 1\<rparr>, drawn := 3\<rparr>))"
  "before_refill sketch (512, 512) game_start
     = Ok (False, game_start\<lparr>snake := \<lparr>m_currentLength = 2,
             m_snake = [(7, 1), (7, 2), (0, 0), (0, 0), (0, 0), (0, 0), (0, 0),
                        (0, 0), (0, 0), (0, 0), (0, 0), (0, 0), (0, 0)]\<rparr>\<rparr>)"
  "before_refill sketch (512, 512) game_tail_off = Undef"
  "loop sketch rnd_ex (512, 512) game_last_bite
     = Some (Ok (Won, game_reset_down\<lparr>snake := \<lparr>m_currentLength = 2,
             m_snake = [(7, 0), (6, 0), (0, 0), (0, 0), (0, 0), (0, 0), (0, 0),
                        (0, 0), (0, 0), (0, 0), (0, 0), (0, 0), (0, 0)]\<rparr>, direct := LEFT\<rparr>))"
  by code_simp+

subsection \<open>The end of a tick\<close>




text \<open>The reset of the sketch is defined when the heading is DOWN or LEFT. When it is UP
  the second cell of the new snake is \<open>(7, -1)\<close>, above the first row of the display buffer,
  and when it is RIGHT it is \<open>(8, 0)\<close>, for which \<open>setPixel\<close> shifts by \<open>-1\<close>. Such a reset is
  reached by playing: with the samples \<open>rnd_line\<close> the snake eats three pieces, turns
  RIGHT, DOWN, LEFT and UP, and bites itself heading UP in the seventh tick.\<close>

lemma reset_defined_by_heading:
  "initGame sketch DOWN 5 = Ok game_reset_down"
  "initGame sketch LEFT 5 = Ok (game_reset_down\<lparr>snake := \<lparr>m_currentLength = 2,
             m_snake = [(7, 0), (6, 0), (0, 0), (0, 0), (0, 0), (0, 0), (0, 0),
                        (0, 0), (0, 0), (0, 0), (0, 0), (0, 0), (0, 0)]\<rparr>, direct := LEFT\<rparr>)"
  "initGame sketch UP 5 = Undef"
  "initGame sketch RIGHT 5 = Undef"
  by code_simp+

lemma loss_heading_up_is_undefined:
  "setup_sketch sketch rnd_line = Some (Ok game_line)"
  "loops sketch rnd_line (take 6 joys_up) game_line
     = Some (Ok \<lparr>matrix = \<lparr>m_rows = 8, m_columns = 8\<rparr>,
                 snake = \<lparr>m_currentLength = 5,
                          m_snake = [(7, 3), (7, 4), (0, 4), (0, 5), (7, 5), (0, 0), (0, 0),
                                     (0, 0), (0, 0), (0, 0), (0, 0), (0, 0), (0, 0)]\<rparr>,
                 food = \<lparr>m_foodPoints = [(3, 7), (4, 7)], m_foodCount = 2\<rparr>,
                 direct = LEFT, drawn = 5\<rparr>)"
  "loops sketch rnd_line joys_up game_line = Some Undef"
  by code_simp+

subsection \<open>The length of the snake\<close>

lemma Snake_new_length:
  assumes "Snake_new canvas initLength maxLength start d = Ok s"
  shows "m_currentLength s = initLength"
  using assms by (auto simp: Snake_new_def split: result.splits)

lemma initGame_length:
  assumes "initGame cfg d k = Ok g"
  shows "m_currentLength (snake g) = INIT_SNAKE_LENGTH cfg"
  using assms Snake_new_length
  by (auto simp: initGame_def Let_def split: result.splits)

lemma before_refill_length:
  assumes "before_refill cfg joy g = Ok (eaten, g1)"
  shows "m_currentLength (snake g1)
           = (if eaten then m_currentLength (snake g) + 1 else m_currentLength (snake g))"
proof -
  let ?d = "turn (direct g) (readDirection cfg joy (direct g))"
  from assms obtain sn' f' where m: "move (matrix g) (snake g) (food g) ?d = Ok (eaten, sn', f')"
    and g1: "g1 = g\<lparr>snake := sn', food := f', direct := ?d\<rparr>"
    by (auto simp: before_refill_def Let_def split: result.splits)
  from move_length [OF m] g1 show ?thesis by simp
qed

lemma before_terminal_snake:
  assumes "before_terminal cfg rnd joy g = Some (Ok g2)"
  shows "\<exists>eaten g1. before_refill cfg joy g = Ok (eaten, g1) \<and> snake g2 = snake g1"
  using assms
  by (auto simp: before_terminal_def split: result.splits option.splits prod.splits)

lemma terminal_length:
  assumes "terminal cfg g2 = Ok (out, g')"
  shows "(out = Running \<and> g' = g2 \<and> m_currentLength (snake g2) \<noteq> MAX_SNAKE_LENGTH cfg)
       \<or> (out \<noteq> Running \<and> m_currentLength (snake g') = INIT_SNAKE_LENGTH cfg)"
  using assms initGame_length
  by (auto simp: terminal_def getLength_def split: result.splits if_splits)

lemma loop_len_ok:
  assumes cfg: "INIT_SNAKE_LENGTH cfg < MAX_SNAKE_LENGTH cfg"
    and inv: "len_ok cfg g"
    and l: "loop cfg rnd joy g = Some (Ok (out, g'))"
  shows "len_ok cfg g'"
proof -
  from l obtain g2 where bt: "before_terminal cfg rnd joy g = Some (Ok g2)"
    and t: "terminal cfg g2 = Ok (out, g')"
    by (auto simp: loop_def split: option.splits result.splits)
  from before_terminal_snake [OF bt] obtain eaten g1
    where br: "before_refill cfg joy g = Ok (eaten, g1)" and s: "snake g2 = snake g1" by blast
  from before_refill_length [OF br] s inv
  have b: "INIT_SNAKE_LENGTH cfg \<le> m_currentLength (snake g2)"
    "m_currentLength (snake g2) \<le> MAX_SNAKE_LENGTH cfg"
    by (auto simp: len_ok_def getLength_def split: if_splits)
  from terminal_length [OF t] b cfg show ?thesis
    by (auto simp: len_ok_def getLength_def)
qed

lemma loops_len_ok:
  assumes cfg: "INIT_SNAKE_LENGTH cfg < MAX_SNAKE_LENGTH cfg"
  shows "len_ok cfg g \<Longrightarrow> loops cfg rnd joys g = Some (Ok g') \<Longrightarrow> len_ok cfg g'"
proof (induction joys arbitrary: g)
  case Nil
  then show ?case by simp
next
  case (Cons joy joys)
  from Cons.prems(2) obtain out g1 where l: "loop cfg rnd joy g = Some (Ok (out, g1))"
    and r: "loops cfg rnd joys g1 = Some (Ok g')"
    by (auto split: option.splits result.splits)
  from loop_len_ok [OF cfg Cons.prems(1) l] have "len_ok cfg g1" .
  from Cons.IH [OF this r] show ?case .
qed

text \<open>
  Claim C4. Let the initial length be below the maximal length, as in the sketch, and
  start from a freshly reset game, that is, from a game whose snake is the one \<open>initGame\<close>
  builds. After any sequence of ticks the length of the snake lies between
  \<open>INIT_SNAKE_LENGTH\<close> and \<open>MAX_SNAKE_LENGTH + 1\<close>, and so does the length at every point of the
  next tick: after \<open>extend\<close>, after the eating or cutting, when the display is flushed, and
  at the end of the tick. At the flush and between two ticks the length is never
  \<open>MAX_SNAKE_LENGTH + 1\<close>.
\<close>

theorem snake_length_bounds:
  assumes "INIT_SNAKE_LENGTH cfg < MAX_SNAKE_LENGTH cfg"
    and "initGame cfg d k = Ok gi" and "snake g0 = snake gi"
    and "loops cfg rnd joys g0 = Some (Ok g)"
  shows "INIT_SNAKE_LENGTH cfg \<le> getLength (snake g)
       \<and> getLength (snake g) \<le> MAX_SNAKE_LENGTH cfg + 1
       \<and> getLength (snake g) \<noteq> MAX_SNAKE_LENGTH cfg + 1
       \<and> (\<forall>joy sn1.
            extend (matrix g) (snake g) (turn (direct g) (readDirection cfg joy (direct g))) = Ok sn1
            \<longrightarrow> INIT_SNAKE_LENGTH cfg \<le> getLength sn1
                \<and> getLength sn1 \<le> MAX_SNAKE_LENGTH cfg + 1)
       \<and> (\<forall>joy eaten g1. before_refill cfg joy g = Ok (eaten, g1)
            \<longrightarrow> INIT_SNAKE_LENGTH cfg \<le> getLength (snake g1)
                \<and> getLength (snake g1) \<le> MAX_SNAKE_LENGTH cfg + 1)
       \<and> (\<forall>joy g2. before_terminal cfg rnd joy g = Some (Ok g2)
            \<longrightarrow> INIT_SNAKE_LENGTH cfg \<le> getLength (snake g2)
                \<and> getLength (snake g2) \<le> MAX_SNAKE_LENGTH cfg + 1
                \<and> getLength (snake g2) \<noteq> MAX_SNAKE_LENGTH cfg + 1)
       \<and> (\<forall>joy out g'. loop cfg rnd joy g = Some (Ok (out, g'))
            \<longrightarrow> INIT_SNAKE_LENGTH cfg \<le> getLength (snake g')
                \<and> getLength (snake g') \<le> MAX_SNAKE_LENGTH cfg + 1
                \<and> getLength (snake g') \<noteq> MAX_SNAKE_LENGTH cfg + 1)"
proof -
  let ?I = "INIT_SNAKE_LENGTH cfg" and ?M = "MAX_SNAKE_LENGTH cfg"
  from initGame_length [OF assms(2)] assms(1,3) have "len_ok cfg g0"
    by (simp add: len_ok_def getLength_def)
  from loops_len_ok [OF assms(1) this assms(4)] have inv: "len_ok cfg g" .
  then have now: "?I \<le> getLength (snake g)" "getLength (snake g) < ?M"
    by (simp_all add: len_ok_def)
  have ext: "?I \<le> getLength sn1 \<and> getLength sn1 \<le> ?M + 1"
    if "extend (matrix g) (snake g) (turn (direct g) (readDirection cfg joy (direct g))) = Ok sn1"
    for joy sn1
    using extend_Ok [OF that] now by (auto simp: getLength_def)
  have mov: "?I \<le> getLength (snake g1) \<and> getLength (snake g1) \<le> ?M"
    if "before_refill cfg joy g = Ok (eaten, g1)" for joy eaten g1
    using before_refill_length [OF that] now by (auto simp: getLength_def split: if_splits)
  have fl: "?I \<le> getLength (snake g2) \<and> getLength (snake g2) \<le> ?M"
    if "before_terminal cfg rnd joy g = Some (Ok g2)" for joy g2
  proof -
    from before_terminal_snake [OF that] obtain eaten g1
      where "before_refill cfg joy g = Ok (eaten, g1)" "snake g2 = snake g1" by blast
    with mov [of joy eaten g1] show ?thesis by simp
  qed
  have nxt: "?I \<le> getLength (snake g') \<and> getLength (snake g') < ?M"
    if "loop cfg rnd joy g = Some (Ok (out, g'))" for joy out g'
    using loop_len_ok [OF assms(1) inv that] by (simp add: len_ok_def)
  have a: "\<forall>joy sn1.
            extend (matrix g) (snake g) (turn (direct g) (readDirection cfg joy (direct g))) = Ok sn1
            \<longrightarrow> ?I \<le> getLength sn1 \<and> getLength sn1 \<le> ?M + 1"
    using ext by blast
  have b: "\<forall>joy eaten g1. before_refill cfg joy g = Ok (eaten, g1)
            \<longrightarrow> ?I \<le> getLength (snake g1) \<and> getLength (snake g1) \<le> ?M + 1"
  proof (intro allI impI)
    fix joy eaten g1 assume "before_refill cfg joy g = Ok (eaten, g1)"
    from mov [OF this] show "?I \<le> getLength (snake g1) \<and> getLength (snake g1) \<le> ?M + 1"
      by simp
  qed
  have c: "\<forall>joy g2. before_terminal cfg rnd joy g = Some (Ok g2)
            \<longrightarrow> ?I \<le> getLength (snake g2) \<and> getLength (snake g2) \<le> ?M + 1
                \<and> getLength (snake g2) \<noteq> ?M + 1"
  proof (intro allI impI)
    fix joy g2 assume "before_terminal cfg rnd joy g = Some (Ok g2)"
    from fl [OF this] show "?I \<le> getLength (snake g2) \<and> getLength (snake g2) \<le> ?M + 1
                \<and> getLength (snake g2) \<noteq> ?M + 1"
      by simp
  qed
  have d: "\<forall>joy out g'. loop cfg rnd joy g = Some (Ok (out, g'))
            \<longrightarrow> ?I \<le> getLength (snake g') \<and> getLength (snake g') \<le> ?M + 1
                \<and> getLength (snake g') \<noteq> ?M + 1"
  proof (intro allI impI)
    fix joy out g' assume "loop cfg rnd joy g = Some (Ok (out, g'))"
    from nxt [OF this] show "?I \<le> getLength (snake g') \<and> getLength (snake g') \<le> ?M + 1
                \<and> getLength (snake g') \<noteq> ?M + 1"
      by simp
  qed
  have e: "?I \<le> getLength (snake g)" "getLength (snake g) \<le> ?M + 1"
      "getLength (snake g) \<noteq> ?M + 1" using now by simp_all
  from e a b c d show ?thesis by (intro conjI)
qed

theorem snake_length_bounds_witness:
  "INIT_SNAKE_LENGTH sketch < MAX_SNAKE_LENGTH sketch
   \<and> initGame sketch DOWN 0 = Ok (game_start\<lparr>food := Food_new 2, drawn := 0\<rparr>)
   \<and> loops sketch rnd_ex [(512, 512), (0, 512), (512, 512)] game_start = Some (Ok game_three_ticks)
   \<and> 2 \<le> getLength (snake game_three_ticks)
   \<and> getLength (snake game_three_ticks) \<le> 13
   \<and> getLength (snake game_three_ticks) \<noteq> 13"
proof -
  have c: "INIT_SNAKE_LENGTH sketch < MAX_SNAKE_LENGTH sketch"
    "INIT_SNAKE_LENGTH sketch = 2" "MAX_SNAKE_LENGTH sketch = 12"
    by (simp_all add: sketch_def)
  have i: "initGame sketch DOWN 0 = Ok (game_start\<lparr>food := Food_new 2, drawn := 0\<rparr>)"
    by code_simp
  have s: "snake game_start = snake (game_start\<lparr>food := Food_new 2, drawn := 0\<rparr>)"
    by simp
  have l: "loops sketch rnd_ex [(512, 512), (0, 512), (512, 512)] game_start
             = Some (Ok game_three_ticks)"
    by code_simp
  from snake_length_bounds [OF c(1) i s l] c i l show ?thesis by simp
qed

end
